theory Spec2Isabelle
  imports Main "HOL-Library.AList"
begin

section \<open>The document tree seen by the agent\<close>

text \<open>
  \<^verbatim>\<open>InspectorDOMAgent.cpp\<close> observes a DOM that it does not own. A \<^verbatim>\<open>Node*\<close> is a
  pointer; here it is a natural number, compared by identity. The tree is a parameter of
  every operation: a record of the accessors the agent calls on \<^verbatim>\<open>Node\<close>,
  \<^verbatim>\<open>Document\<close> and \<^verbatim>\<open>HTMLFrameOwnerElement\<close>. The order of siblings is given by the
  list \<open>childNodes\<close>; \<^verbatim>\<open>firstChild\<close>, \<^verbatim>\<open>nextSibling\<close> and \<^verbatim>\<open>previousSibling\<close>
  read that list.

  \<open>attributes\<close> is \<^verbatim>\<open>Element::attributes(true)\<close> as name and value pairs (\<open>None\<close> for a
  null map), \<open>documentURL\<close> is \<^verbatim>\<open>Document::url()\<close> (\<open>None\<close> for a null URL),
  \<open>docTypeIds\<close> is the public identifier, the system identifier and the internal subset of
  a document type. \<open>frameDocuments\<close> lists \<^verbatim>\<open>frame->document()\<close> for the frames that
  \<^verbatim>\<open>traverseNext()\<close> visits from the frame of a document. The last five fields are the
  name test and the query evaluators of \<^verbatim>\<open>Document\<close>; \<open>None\<close> is an exception code or a
  null result.
\<close>

type_synonym node = nat

datatype nodeType =
    ELEMENT_NODE | ATTRIBUTE_NODE | TEXT_NODE | CDATA_SECTION_NODE
  | ENTITY_REFERENCE_NODE | ENTITY_NODE | PROCESSING_INSTRUCTION_NODE | COMMENT_NODE
  | DOCUMENT_NODE | DOCUMENT_TYPE_NODE | DOCUMENT_FRAGMENT_NODE | NOTATION_NODE
  | XPATH_NAMESPACE_NODE

fun nodeTypeCode :: "nodeType \<Rightarrow> int" where
  "nodeTypeCode ELEMENT_NODE = 1"
| "nodeTypeCode ATTRIBUTE_NODE = 2"
| "nodeTypeCode TEXT_NODE = 3"
| "nodeTypeCode CDATA_SECTION_NODE = 4"
| "nodeTypeCode ENTITY_REFERENCE_NODE = 5"
| "nodeTypeCode ENTITY_NODE = 6"
| "nodeTypeCode PROCESSING_INSTRUCTION_NODE = 7"
| "nodeTypeCode COMMENT_NODE = 8"
| "nodeTypeCode DOCUMENT_NODE = 9"
| "nodeTypeCode DOCUMENT_TYPE_NODE = 10"
| "nodeTypeCode DOCUMENT_FRAGMENT_NODE = 11"
| "nodeTypeCode NOTATION_NODE = 12"
| "nodeTypeCode XPATH_NAMESPACE_NODE = 13"

record dom =
  nodeType :: "node \<Rightarrow> nodeType"
  nodeName :: "node \<Rightarrow> string"
  localName :: "node \<Rightarrow> string"
  nodeValue :: "node \<Rightarrow> string"
  parentNode :: "node \<Rightarrow> node option"
  childNodes :: "node \<Rightarrow> node list"
  isHTMLElement :: "node \<Rightarrow> bool"
  isFrameOwnerElement :: "node \<Rightarrow> bool"
  contentDocument :: "node \<Rightarrow> node option"
  ownerElement :: "node \<Rightarrow> node option"
  documentURL :: "node \<Rightarrow> string option"
  attributes :: "node \<Rightarrow> (string \<times> string) list option"
  docTypeIds :: "node \<Rightarrow> string \<times> string \<times> string"
  frameDocuments :: "node \<Rightarrow> node option list"
  isValidName :: "string \<Rightarrow> bool"
  getElementById :: "node \<Rightarrow> string \<Rightarrow> node option"
  getElementsByClassName :: "node \<Rightarrow> string \<Rightarrow> node list"
  getElementsByName :: "node \<Rightarrow> string \<Rightarrow> node list"
  querySelectorAll :: "node \<Rightarrow> string \<Rightarrow> node list option"
  evaluate :: "node \<Rightarrow> string \<Rightarrow> node list option"

definition firstChild :: "dom \<Rightarrow> node \<Rightarrow> node option" where
  "firstChild d n = (case childNodes d n of [] \<Rightarrow> None | c # _ \<Rightarrow> Some c)"

text \<open>The siblings after a node, nearest first, and the siblings before it, nearest first.\<close>

definition siblingsAfter :: "dom \<Rightarrow> node \<Rightarrow> node list" where
  "siblingsAfter d n =
     (case parentNode d n of
        None \<Rightarrow> []
      | Some p \<Rightarrow> drop 1 (dropWhile (\<lambda>x. x \<noteq> n) (childNodes d p)))"

definition siblingsBefore :: "dom \<Rightarrow> node \<Rightarrow> node list" where
  "siblingsBefore d n =
     (case parentNode d n of
        None \<Rightarrow> []
      | Some p \<Rightarrow> rev (takeWhile (\<lambda>x. x \<noteq> n) (childNodes d p)))"

definition nextSibling :: "dom \<Rightarrow> node \<Rightarrow> node option" where
  "nextSibling d n = (case siblingsAfter d n of [] \<Rightarrow> None | c # _ \<Rightarrow> Some c)"

definition previousSibling :: "dom \<Rightarrow> node \<Rightarrow> node option" where
  "previousSibling d n = (case siblingsBefore d n of [] \<Rightarrow> None | c # _ \<Rightarrow> Some c)"

subsection \<open>Whitespace\<close>

text \<open>
  \<^verbatim>\<open>String::stripWhiteSpace\<close> removes the leading and the trailing characters for which
  WTF's \<^verbatim>\<open>isSpaceOrNewline\<close> holds; on 8-bit characters these are the space and the
  characters 9 to 13.
\<close>

definition isSpaceOrNewline :: "char \<Rightarrow> bool" where
  "isSpaceOrNewline c = (c = CHR '' '' \<or> (9 \<le> (of_char c :: nat) \<and> (of_char c :: nat) \<le> 13))"

definition stripWhiteSpace :: "string \<Rightarrow> string" where
  "stripWhiteSpace str = rev (dropWhile isSpaceOrNewline (rev (dropWhile isSpaceOrNewline str)))"

text \<open>\<^verbatim>\<open>isWhitespace(Node*)\<close>: the argument may be the null pointer.\<close>

definition isWhitespace :: "dom \<Rightarrow> node option \<Rightarrow> bool" where
  "isWhitespace d node =
     (case node of
        None \<Rightarrow> False
      | Some n \<Rightarrow> nodeType d n = TEXT_NODE \<and> length (stripWhiteSpace (nodeValue d n)) = 0)"

text \<open>
  \<^verbatim>\<open>while (isWhitespace(node)) node = node->nextSibling();\<close> on a chain of siblings: the
  first node of the chain that is not whitespace, or null at its end.
\<close>

fun skipWhitespace :: "dom \<Rightarrow> node list \<Rightarrow> node option" where
  "skipWhitespace d [] = None"
| "skipWhitespace d (n # rest) =
     (if isWhitespace d (Some n) then skipWhitespace d rest else Some n)"

section \<open>The agent's state\<close>

text \<open>
  A \<^verbatim>\<open>NodeToIdMap\<close> is a \<^verbatim>\<open>HashMap<Node*, long>\<close>: an association list here.
  \<^verbatim>\<open>get\<close> of a key that is absent returns the empty value 0. The agent holds the map
  of the main document and a vector of pointers to maps for detached subtrees, each made
  by \<^verbatim>\<open>new NodeToIdMap()\<close>. A \<^verbatim>\<open>NodeToIdMap*\<close> is a reference: \<open>DocumentMap\<close> for
  the member \<^verbatim>\<open>m_documentNodeToIdMap\<close>, \<open>DanglingMap k\<close> for the \<open>k\<close>-th map allocated.
  \<open>nodeMaps\<close> is the store that holds what each reference points to and
  \<open>mapsAllocated\<close> counts the allocations, so that every new map has a new reference.

  \<^verbatim>\<open>long\<close> is 64 bits wide. The only arithmetic on identifiers is the increment of
  \<^verbatim>\<open>m_lastNodeId\<close>, whose wrap-around is written out in \<open>nextLong\<close>.
\<close>

type_synonym nodeToIdMap = "(node \<times> int) list"

datatype mapRef = DocumentMap | DanglingMap nat

definition get :: "nodeToIdMap \<Rightarrow> node \<Rightarrow> int" where
  "get m n = (case map_of m n of None \<Rightarrow> 0 | Some i \<Rightarrow> i)"

definition contains :: "nodeToIdMap \<Rightarrow> node \<Rightarrow> bool" where
  "contains m n = (map_of m n \<noteq> None)"

definition LONG_MAX :: int where
  "LONG_MAX = 9223372036854775807"

definition LONG_MIN :: int where
  "LONG_MIN = - 9223372036854775808"

definition nextLong :: "int \<Rightarrow> int" where
  "nextLong i = (if i = LONG_MAX then LONG_MIN else i + 1)"

text \<open>The records built for the front end by \<^verbatim>\<open>buildObjectForNode\<close>.\<close>

datatype nodeObject = NodeObject
  (objId: int)
  (objNodeType: int)
  (objNodeName: string)
  (objLocalName: string)
  (objNodeValue: string)
  (objChildNodeCount: "int option")
  (objChildren: "nodeObject list option")
  (objAttributes: "(string \<times> string) list option")
  (objDocumentURL: "string option")
  (objDocType: "(string \<times> string \<times> string) option")

text \<open>The calls made on \<^verbatim>\<open>RemoteInspectorFrontend\<close>, in the order they are made.\<close>

datatype message =
    SetDocument "nodeObject option"
  | SetChildNodes int "nodeObject list"
  | ChildNodeCountUpdated int int
  | ChildNodeInserted int int nodeObject
  | ChildNodeRemoved int int
  | SetDetachedRoot nodeObject
  | AddNodesToSearchResult "int list"
  | DidGetChildNodes int
  | DidSetOuterHTML int int
  | DidChangeTagName int int
  | DidGetEventListenersForNode int int "(string \<times> bool \<times> int) list"
  | DidPushNodeByPathToFrontend int int

text \<open>The search jobs: the class of the job, its document and its query.\<close>

datatype jobKind =
    MatchExactIdJob | MatchExactClassNamesJob | MatchExactTagNamesJob
  | MatchQuerySelectorAllJob | MatchXPathJob

datatype matchJob = MatchJob (jobKind: jobKind) (jobDocument: node) (jobQuery: string)

record agent =
  lastNodeId :: int
  nodeMaps :: "mapRef \<Rightarrow> nodeToIdMap"
  danglingNodeToIdMaps :: "mapRef list"
  mapsAllocated :: nat
  idToNode :: "int \<Rightarrow> node option"
  idToNodesMap :: "int \<Rightarrow> mapRef option"
  childrenRequested :: "int set"
  inspectedNodes :: "int list"
  documents :: "node list"
  pendingMatchJobs :: "matchJob list"
  searchResults :: "node list"
  matchJobsTimer :: "nat option"
  cssStoreRemoved :: "node option list"
  frontend :: "message list"

text \<open>
  The constructor: \<^verbatim>\<open>m_lastNodeId(1)\<close>, every container empty, the timer not active.
  \<open>matchJobsTimer\<close> holds the delay of the pending one-shot in milliseconds;
  \<open>cssStoreRemoved\<close> lists the arguments of the calls to
  \<^verbatim>\<open>InspectorCSSStore::removeDocument\<close>; \<open>frontend\<close> lists the calls on the front end.
\<close>

definition InspectorDOMAgent :: agent where
  "InspectorDOMAgent =
     \<lparr> lastNodeId = 1, nodeMaps = (\<lambda>_. []), danglingNodeToIdMaps = [], mapsAllocated = 0,
       idToNode = (\<lambda>_. None), idToNodesMap = (\<lambda>_. None), childrenRequested = {},
       inspectedNodes = [], documents = [], pendingMatchJobs = [], searchResults = [],
       matchJobsTimer = None, cssStoreRemoved = [], frontend = [] \<rparr>"

definition send :: "message \<Rightarrow> agent \<Rightarrow> agent" where
  "send m s = s\<lparr>frontend := frontend s @ [m]\<rparr>"

subsection \<open>Listening to documents\<close>

text \<open>\<^verbatim>\<open>m_documents\<close> is a \<^verbatim>\<open>ListHashSet\<close>: a set that keeps the order of insertion.\<close>

definition startListening :: "node \<Rightarrow> agent \<Rightarrow> agent" where
  "startListening doc s =
     (if doc \<in> set (documents s) then s else s\<lparr>documents := documents s @ [doc]\<rparr>)"

text \<open>\<^verbatim>\<open>stopListening\<close> is also called with a null \<^verbatim>\<open>contentDocument()\<close>, which the set never holds.\<close>

definition stopListening :: "node option \<Rightarrow> agent \<Rightarrow> agent" where
  "stopListening doc s =
     (case doc of
        None \<Rightarrow> s
      | Some dc \<Rightarrow>
          if dc \<notin> set (documents s) then s
          else s\<lparr>documents := removeAll dc (documents s)\<rparr>)"

definition mainFrameDocument :: "agent \<Rightarrow> node option" where
  "mainFrameDocument s = (case documents s of [] \<Rightarrow> None | doc # _ \<Rightarrow> Some doc)"

subsection \<open>The traversal that skips whitespace and enters frames\<close>

definition innerFirstChild :: "dom \<Rightarrow> node \<Rightarrow> agent \<Rightarrow> node option \<times> agent" where
  "innerFirstChild d node s =
     (case (if isFrameOwnerElement d node then contentDocument d node else None) of
        Some doc \<Rightarrow> (firstChild d doc, startListening doc s)
      | None \<Rightarrow> (skipWhitespace d (childNodes d node), s))"

definition innerNextSibling :: "dom \<Rightarrow> node \<Rightarrow> node option" where
  "innerNextSibling d node = skipWhitespace d (siblingsAfter d node)"

definition innerPreviousSibling :: "dom \<Rightarrow> node \<Rightarrow> node option" where
  "innerPreviousSibling d node = skipWhitespace d (siblingsBefore d node)"

text \<open>
  The loops of the form
  \<^verbatim>\<open>for (child = innerFirstChild(n); child; child = innerNextSibling(child))\<close>
  visit the nodes of \<open>innerChildren\<close> in order: the result of \<^verbatim>\<open>innerFirstChild\<close>,
  then the nodes after it in its sibling list that are not whitespace. The only effect of
  the traversal on the agent is the \<^verbatim>\<open>startListening\<close> of \<^verbatim>\<open>innerFirstChild\<close>.
\<close>

definition innerChildren :: "dom \<Rightarrow> node \<Rightarrow> node list" where
  "innerChildren d node =
     (case (if isFrameOwnerElement d node then contentDocument d node else None) of
        Some doc \<Rightarrow>
          (case childNodes d doc of
             [] \<Rightarrow> []
           | c # rest \<Rightarrow> c # filter (\<lambda>n. \<not> isWhitespace d (Some n)) rest)
      | None \<Rightarrow> filter (\<lambda>n. \<not> isWhitespace d (Some n)) (childNodes d node))"

text \<open>\<^verbatim>\<open>unsigned count\<close> is 32 bits wide.\<close>

definition innerChildNodeCount :: "dom \<Rightarrow> node \<Rightarrow> agent \<Rightarrow> nat \<times> agent" where
  "innerChildNodeCount d node s =
     (length (innerChildren d node) mod 4294967296, snd (innerFirstChild d node s))"

definition innerParentNode :: "dom \<Rightarrow> node \<Rightarrow> node option" where
  "innerParentNode d node =
     (case parentNode d node of
        None \<Rightarrow> None
      | Some parent \<Rightarrow>
          if nodeType d parent = DOCUMENT_NODE then ownerElement d parent else Some parent)"

section \<open>Binding and unbinding\<close>

definition bind :: "node \<Rightarrow> mapRef \<Rightarrow> agent \<Rightarrow> int \<times> agent" where
  "bind node nodesMap s =
     (let nid = get (nodeMaps s nodesMap) node in
      if nid \<noteq> 0 then (nid, s)
      else
        let nid = lastNodeId s in
        (nid, s\<lparr> lastNodeId := nextLong (lastNodeId s),
                 nodeMaps := (nodeMaps s)(nodesMap := AList.update node nid (nodeMaps s nodesMap)),
                 idToNode := (idToNode s)(nid := Some node),
                 idToNodesMap := (idToNodesMap s)(nid := Some nodesMap) \<rparr>))"

definition unbindFrameOwner :: "dom \<Rightarrow> node \<Rightarrow> agent \<Rightarrow> agent" where
  "unbindFrameOwner d node s =
     (if isFrameOwnerElement d node then
        (let s1 = stopListening (contentDocument d node) s
         in s1\<lparr>cssStoreRemoved := cssStoreRemoved s1 @ [contentDocument d node]\<rparr>)
      else s)"

definition forget :: "node \<Rightarrow> mapRef \<Rightarrow> int \<Rightarrow> agent \<Rightarrow> agent" where
  "forget node nodesMap nid s =
     s\<lparr> idToNode := (idToNode s)(nid := None),
        nodeMaps := (nodeMaps s)(nodesMap := AList.delete node (nodeMaps s nodesMap)) \<rparr>"

function unbind :: "dom \<Rightarrow> node \<Rightarrow> mapRef \<Rightarrow> agent \<Rightarrow> agent"
  and unbindChildren :: "dom \<Rightarrow> node list \<Rightarrow> mapRef \<Rightarrow> agent \<Rightarrow> agent"
where
  "unbind d node nodesMap s =
     (let s1 = unbindFrameOwner d node s;
          nid = get (nodeMaps s1 nodesMap) node
      in if nid = 0 then s1
         else
           let s2 = forget node nodesMap nid s1 in
           if nid \<in> childrenRequested s2 then
             unbindChildren d (innerChildren d node) nodesMap
               (snd (innerFirstChild d node
                  (s2\<lparr>childrenRequested := childrenRequested s2 - {nid}\<rparr>)))
           else s2)"
| "unbindChildren d [] nodesMap s = s"
| "unbindChildren d (child # rest) nodesMap s =
     unbindChildren d rest nodesMap (unbind d child nodesMap s)"
  by pat_completeness auto


text \<open>
  \<^verbatim>\<open>discardBindings\<close> and \<^verbatim>\<open>releaseDanglingNodes\<close>. The maps of the vector are deleted;
  \<^verbatim>\<open>m_idToNodesMap\<close> and \<^verbatim>\<open>m_lastNodeId\<close> are not touched.
\<close>

definition releaseDanglingNodes :: "agent \<Rightarrow> agent" where
  "releaseDanglingNodes s =
     s\<lparr> nodeMaps := (\<lambda>r. if r \<in> set (danglingNodeToIdMaps s) then [] else nodeMaps s r),
        danglingNodeToIdMaps := [] \<rparr>"

definition discardBindings :: "agent \<Rightarrow> agent" where
  "discardBindings s =
     (let s1 = s\<lparr> nodeMaps := (nodeMaps s)(DocumentMap := []), idToNode := (\<lambda>_. None) \<rparr>;
          s2 = releaseDanglingNodes s1
      in s2\<lparr> childrenRequested := {}, inspectedNodes := [] \<rparr>)"

definition nodeForId :: "agent \<Rightarrow> int \<Rightarrow> node option" where
  "nodeForId s nid = (if nid = 0 then None else idToNode s nid)"

definition inspectedNode :: "agent \<Rightarrow> nat \<Rightarrow> int" where
  "inspectedNode s num =
     (if num < length (inspectedNodes s) then inspectedNodes s ! num else 0)"

definition addInspectedNode :: "int \<Rightarrow> agent \<Rightarrow> agent" where
  "addInspectedNode nodeId s = s\<lparr>inspectedNodes := take 5 (nodeId # inspectedNodes s)\<rparr>"

section \<open>Building the records\<close>

text \<open>
  \<^verbatim>\<open>buildObjectForNode\<close> binds the node, fills the fields that every record has
  (\<open>describe\<close>), and for an element, a document or a fragment adds the child count, the
  children and the attributes (\<open>describeContainer\<close>); a document type gets its identifiers
  (\<open>describeDocType\<close>). Every call in the file passes a depth of 0, 1 or 2, and the depth
  is a natural number here: the source's \<^verbatim>\<open>int\<close> also admits a negative depth, which is
  never decremented, and that branch is not part of this model.
  \<open>buildObjectsForNodes\<close> is the loop at the end of
  \<^verbatim>\<open>buildArrayForContainerChildren\<close>.
\<close>

definition documentURLString :: "dom \<Rightarrow> node option \<Rightarrow> string" where
  "documentURLString d document =
     (case document of
        None \<Rightarrow> ''''
      | Some doc \<Rightarrow> (case documentURL d doc of None \<Rightarrow> '''' | Some url \<Rightarrow> url))"

definition buildArrayForElementAttributes :: "dom \<Rightarrow> node \<Rightarrow> (string \<times> string) list" where
  "buildArrayForElementAttributes d element =
     (case attributes d element of None \<Rightarrow> [] | Some attrMap \<Rightarrow> attrMap)"

definition isContainerType :: "nodeType \<Rightarrow> bool" where
  "isContainerType ty =
     (ty = ELEMENT_NODE \<or> ty = DOCUMENT_NODE \<or> ty = DOCUMENT_FRAGMENT_NODE)"

definition unsignedToInt :: "nat \<Rightarrow> int" where
  "unsignedToInt n = (if n < 2147483648 then int n else int n - 4294967296)"

definition describe :: "dom \<Rightarrow> node \<Rightarrow> int \<Rightarrow> nodeObject" where
  "describe d node nid =
     (let ty = nodeType d node in
      NodeObject nid (nodeTypeCode ty)
        (if ty = TEXT_NODE \<or> ty = COMMENT_NODE \<or> ty = ATTRIBUTE_NODE
            \<or> ty = DOCUMENT_FRAGMENT_NODE then '''' else nodeName d node)
        (if ty = TEXT_NODE \<or> ty = COMMENT_NODE \<or> ty = DOCUMENT_FRAGMENT_NODE
         then '''' else localName d node)
        (if ty = TEXT_NODE \<or> ty = COMMENT_NODE then nodeValue d node else '''')
        None None None None None)"

definition describeContainer :: "dom \<Rightarrow> node \<Rightarrow> nat \<Rightarrow> nodeObject list \<Rightarrow> nodeObject \<Rightarrow> nodeObject" where
  "describeContainer d node nodeCount children v =
     (case v of NodeObject nid ty nm ln nv _ _ _ _ dt \<Rightarrow>
        NodeObject nid ty nm ln nv
          (Some (unsignedToInt nodeCount))
          (if length children > 0 then Some children else None)
          (if nodeType d node = ELEMENT_NODE
           then Some (buildArrayForElementAttributes d node) else None)
          (if nodeType d node = ELEMENT_NODE then
             (if isFrameOwnerElement d node
              then Some (documentURLString d (contentDocument d node)) else None)
           else if nodeType d node = DOCUMENT_NODE
           then Some (documentURLString d (Some node)) else None)
          dt)"

definition describeDocType :: "dom \<Rightarrow> node \<Rightarrow> nodeObject \<Rightarrow> nodeObject" where
  "describeDocType d node v =
     (case v of NodeObject nid ty nm ln nv cc ch at du _ \<Rightarrow>
        NodeObject nid ty nm ln nv cc ch at du (Some (docTypeIds d node)))"

function buildObjectForNode :: "dom \<Rightarrow> node \<Rightarrow> nat \<Rightarrow> mapRef \<Rightarrow> agent \<Rightarrow> nodeObject \<times> agent"
  and buildArrayForContainerChildren ::
    "dom \<Rightarrow> node \<Rightarrow> nat \<Rightarrow> mapRef \<Rightarrow> agent \<Rightarrow> nodeObject list \<times> agent"
  and buildObjectsForNodes ::
    "dom \<Rightarrow> node list \<Rightarrow> nat \<Rightarrow> mapRef \<Rightarrow> agent \<Rightarrow> nodeObject list \<times> agent"
where
  "buildObjectForNode d node depth nodesMap s =
     (let b = bind node nodesMap s;
          v = describe d node (fst b)
      in if isContainerType (nodeType d node) then
           (let c = innerChildNodeCount d node (snd b);
                a = buildArrayForContainerChildren d node depth nodesMap (snd c)
            in (describeContainer d node (fst c) (fst a) v, snd a))
         else if nodeType d node = DOCUMENT_TYPE_NODE then (describeDocType d node v, snd b)
         else (v, snd b))"
| "buildArrayForContainerChildren d container depth nodesMap s =
     (if depth = 0 then
        (let c = innerChildNodeCount d container s in
         if fst c = 1 then
           (let f = innerFirstChild d container (snd c) in
            case fst f of
              None \<Rightarrow> ([], snd f)
            | Some child \<Rightarrow>
                if nodeType d child = TEXT_NODE then
                  (let v = buildObjectForNode d child 0 nodesMap (snd f)
                   in ([fst v], snd v))
                else ([], snd f))
         else ([], snd c))
      else
        buildObjectsForNodes d (innerChildren d container) (depth - 1) nodesMap
          (snd (innerFirstChild d container s)))"
| "buildObjectsForNodes d [] depth nodesMap s = ([], s)"
| "buildObjectsForNodes d (child # rest) depth nodesMap s =
     (let v = buildObjectForNode d child depth nodesMap s;
          r = buildObjectsForNodes d rest depth nodesMap (snd v)
      in (fst v # fst r, snd r))"
  by pat_completeness auto
termination
  by (relation "inv_image (less_than <*lex*> less_than <*lex*> less_than)
      (\<lambda>x. case x of
         Inl (d, node, depth, M, s) \<Rightarrow>
           (depth, if isContainerType (nodeType d node) then 2 else 0, 0::nat)
       | Inr (Inl (d, container, depth, M, s)) \<Rightarrow> (depth, 1::nat, 0)
       | Inr (Inr (d, nodes, depth, M, s)) \<Rightarrow> (depth, 3, length nodes))")
    (auto simp: isContainerType_def)

section \<open>Pushing nodes to the front end\<close>

text \<open>
  What stops an operation before it returns: a null pointer is dereferenced, or the walk
  to the root in \<^verbatim>\<open>pushNodePathToFrontend\<close> never ends.
\<close>

datatype error = NullPointer | NonTermination

definition pushDocumentToFrontend :: "dom \<Rightarrow> agent \<Rightarrow> bool \<times> agent" where
  "pushDocumentToFrontend d s =
     (case mainFrameDocument s of
        None \<Rightarrow> (False, s)
      | Some document \<Rightarrow>
          if \<not> contains (nodeMaps s DocumentMap) document then
            (let v = buildObjectForNode d document 2 DocumentMap s
             in (True, send (SetDocument (Some (fst v))) (snd v)))
          else (True, s))"

text \<open>
  \<^verbatim>\<open>m_idToNodesMap.get(nodeId)\<close> is a null pointer when the identifier has no entry, and
  \<^verbatim>\<open>bind\<close> would then write through it.
\<close>

definition pushChildNodesToFrontend :: "dom \<Rightarrow> int \<Rightarrow> agent \<Rightarrow> error + agent" where
  "pushChildNodesToFrontend d nodeId s =
     (case nodeForId s nodeId of
        None \<Rightarrow> Inr s
      | Some node \<Rightarrow>
          if \<not> isContainerType (nodeType d node) then Inr s
          else if nodeId \<in> childrenRequested s then Inr s
          else
            (case idToNodesMap s nodeId of
               None \<Rightarrow> Inl NullPointer
             | Some nodeMap \<Rightarrow>
                 (let a = buildArrayForContainerChildren d node 1 nodeMap s;
                      s1 = (snd a)\<lparr>childrenRequested := insert nodeId (childrenRequested (snd a))\<rparr>
                  in Inr (send (SetChildNodes nodeId (fst a)) s1))))"

definition getChildNodes :: "dom \<Rightarrow> int \<Rightarrow> int \<Rightarrow> agent \<Rightarrow> error + agent" where
  "getChildNodes d callId nodeId s =
     (case pushChildNodesToFrontend d nodeId s of
        Inl e \<Rightarrow> Inl e
      | Inr s1 \<Rightarrow> Inr (send (DidGetChildNodes callId) s1))"

text \<open>
  The \<^verbatim>\<open>while (true)\<close> loop of \<^verbatim>\<open>pushNodePathToFrontend\<close>: it climbs with
  \<^verbatim>\<open>innerParentNode\<close> and appends every parent to \<open>path\<close>, until a node has no parent
  (the node is the root of a detached subtree, returned as the second component) or a
  parent has an identifier in the map of the document. The loop need not end on a parent
  relation with a cycle, so its result is an option.
\<close>

partial_function (option) findPath ::
  "dom \<Rightarrow> nodeToIdMap \<Rightarrow> node \<Rightarrow> node list \<Rightarrow> (node list \<times> node option) option"
where
  "findPath d documentMap node path =
     (case innerParentNode d node of
        None \<Rightarrow> Some (path, Some node)
      | Some parent \<Rightarrow>
          if get documentMap parent \<noteq> 0 then Some (path @ [parent], None)
          else findPath d documentMap parent (path @ [parent]))"

text \<open>
  The loop \<^verbatim>\<open>for (int i = path.size() - 1; i >= 0; --i)\<close>, given the path reversed. The
  \<^verbatim>\<open>ASSERT(nodeId)\<close> is compiled out of a release build.
\<close>

fun pushPath :: "dom \<Rightarrow> mapRef \<Rightarrow> node list \<Rightarrow> agent \<Rightarrow> error + agent" where
  "pushPath d mp [] s = Inr s"
| "pushPath d mp (n # rest) s =
     (case pushChildNodesToFrontend d (get (nodeMaps s mp) n) s of
        Inl e \<Rightarrow> Inl e
      | Inr s1 \<Rightarrow> pushPath d mp rest s1)"

definition newDanglingMap :: "agent \<Rightarrow> mapRef \<times> agent" where
  "newDanglingMap s =
     (let danglingMap = DanglingMap (mapsAllocated s)
      in (danglingMap,
          s\<lparr> mapsAllocated := Suc (mapsAllocated s),
             nodeMaps := (nodeMaps s)(danglingMap := []),
             danglingNodeToIdMaps := danglingNodeToIdMaps s @ [danglingMap] \<rparr>))"

definition pushNodePathToFrontend :: "dom \<Rightarrow> node \<Rightarrow> agent \<Rightarrow> error + (int \<times> agent)" where
  "pushNodePathToFrontend d nodeToPush s =
     (let pd = pushDocumentToFrontend d s in
      if \<not> fst pd then Inr (0, snd pd)
      else
        let s1 = snd pd;
            result = get (nodeMaps s1 DocumentMap) nodeToPush
        in if result \<noteq> 0 then Inr (result, s1)
           else
             (case findPath d (nodeMaps s1 DocumentMap) nodeToPush [] of
                None \<Rightarrow> Inl NonTermination
              | Some (path, detached) \<Rightarrow>
                  (let ms =
                     (case detached of
                        None \<Rightarrow> (DocumentMap, s1)
                      | Some root \<Rightarrow>
                          (let dm = newDanglingMap s1;
                               v = buildObjectForNode d root 0 (fst dm) (snd dm)
                           in (fst dm, send (SetDetachedRoot (fst v)) (snd v))))
                   in case pushPath d (fst ms) (rev path) (snd ms) of
                        Inl e \<Rightarrow> Inl e
                      | Inr s3 \<Rightarrow> Inr (get (nodeMaps s3 (fst ms)) nodeToPush, s3))))"

subsection \<open>Replacing the outer markup\<close>

text \<open>
  \<^verbatim>\<open>HTMLElement::setOuterHTML\<close> belongs to the tree. It is the parameter \<open>prim\<close>: from the
  tree, the element, the markup and the agent it gives the exception code, the tree after
  the call, and the agent after the notifications that the tree sent during the call.
  The new node is null when, after the call, nothing follows the previous sibling or the
  parent has no child; \<^verbatim>\<open>pushNodePathToFrontend\<close> then returns 0 when there is no
  document to push, and otherwise goes on to dereference the null pointer in
  \<^verbatim>\<open>innerParentNode\<close>.
\<close>

definition setOuterHTML ::
  "(dom \<Rightarrow> node \<Rightarrow> string \<Rightarrow> agent \<Rightarrow> int \<times> dom \<times> agent) \<Rightarrow>
     dom \<Rightarrow> int \<Rightarrow> int \<Rightarrow> string \<Rightarrow> agent \<Rightarrow> error + (dom \<times> agent)" where
  "setOuterHTML prim d callId nodeId outerHTML s =
     (case nodeForId s nodeId of
        None \<Rightarrow> Inr (d, send (DidSetOuterHTML callId 0) s)
      | Some node \<Rightarrow>
          if \<not> isHTMLElement d node then Inr (d, send (DidSetOuterHTML callId 0) s)
          else
            (let requested = (nodeId \<in> childrenRequested s);
                 previous = previousSibling d node;
                 parent = parentNode d node;
                 r = prim d node outerHTML s;
                 ec = fst r;
                 d1 = fst (snd r);
                 s1 = (if ec \<noteq> 0 then send (DidSetOuterHTML callId 0) (snd (snd r))
                       else snd (snd r))
             in case (case previous of
                        Some p \<Rightarrow> Inr (nextSibling d1 p)
                      | None \<Rightarrow>
                          (case parent of
                             None \<Rightarrow> Inl NullPointer
                           | Some pn \<Rightarrow> Inr (firstChild d1 pn))) of
                  Inl e \<Rightarrow> Inl e
                | Inr newNode \<Rightarrow>
                    (case (case newNode of
                             None \<Rightarrow>
                               (let pd = pushDocumentToFrontend d1 s1
                                in if \<not> fst pd then Inr (0, snd pd) else Inl NullPointer)
                           | Some n \<Rightarrow> pushNodePathToFrontend d1 n s1) of
                       Inl e \<Rightarrow> Inl e
                     | Inr (newId, s2) \<Rightarrow>
                         (case (if requested then pushChildNodesToFrontend d1 newId s2
                                else Inr s2) of
                            Inl e \<Rightarrow> Inl e
                          | Inr s3 \<Rightarrow> Inr (d1, send (DidSetOuterHTML callId newId) s3)))))"

section \<open>Notifications from the tree\<close>

text \<open>
  \<^verbatim>\<open>m_documentNodeToIdMap.get(parent)\<close> with a null parent finds nothing and gives 0, so
  both notifications return when the node has no parent.
\<close>

definition didInsertDOMNode :: "dom \<Rightarrow> node \<Rightarrow> agent \<Rightarrow> agent" where
  "didInsertDOMNode d node s =
     (if isWhitespace d (Some node) then s
      else
        let s1 = unbind d node DocumentMap s in
        case parentNode d node of
          None \<Rightarrow> s1
        | Some parent \<Rightarrow>
            (let parentId = get (nodeMaps s1 DocumentMap) parent in
             if parentId = 0 then s1
             else if parentId \<notin> childrenRequested s1 then
               (let c = innerChildNodeCount d parent s1
                in send (ChildNodeCountUpdated parentId (unsignedToInt (fst c))) (snd c))
             else
               (let prevSibling = innerPreviousSibling d node;
                    prevId = (case prevSibling of
                                None \<Rightarrow> 0
                              | Some p \<Rightarrow> get (nodeMaps s1 DocumentMap) p);
                    v = buildObjectForNode d node 0 DocumentMap s1
                in send (ChildNodeInserted parentId prevId (fst v)) (snd v))))"

definition didRemoveDOMNode :: "dom \<Rightarrow> node \<Rightarrow> agent \<Rightarrow> agent" where
  "didRemoveDOMNode d node s =
     (if isWhitespace d (Some node) then s
      else
        case parentNode d node of
          None \<Rightarrow> s
        | Some parent \<Rightarrow>
            (let parentId = get (nodeMaps s DocumentMap) parent in
             if parentId = 0 then s
             else
               (let s1 =
                  (if parentId \<notin> childrenRequested s then
                     (let c = innerChildNodeCount d parent s in
                      if fst c = 1 then send (ChildNodeCountUpdated parentId 0) (snd c)
                      else snd c)
                   else send (ChildNodeRemoved parentId (get (nodeMaps s DocumentMap) node)) s)
                in unbind d node DocumentMap s1)))"

section \<open>Search\<close>

text \<open>
  A result collector is a \<^verbatim>\<open>ListHashSet<Node*>\<close>: \<^verbatim>\<open>add\<close> appends a node that the set
  does not hold yet.
\<close>

definition addNode :: "node \<Rightarrow> node list \<Rightarrow> node list" where
  "addNode n resultCollector =
     (if n \<in> set resultCollector then resultCollector else resultCollector @ [n])"

fun addNodesToResults :: "node list \<Rightarrow> node list \<Rightarrow> node list" where
  "addNodesToResults [] resultCollector = resultCollector"
| "addNodesToResults (n # nodes) resultCollector =
     addNodesToResults nodes (addNode n resultCollector)"

text \<open>The method \<^verbatim>\<open>match\<close> of the job classes.\<close>

definition matchJob :: "dom \<Rightarrow> matchJob \<Rightarrow> node list \<Rightarrow> node list" where
  "matchJob d job resultCollector =
     (case job of MatchJob kind document query \<Rightarrow>
        (case kind of
           MatchExactIdJob \<Rightarrow>
             if query = [] then resultCollector
             else (case getElementById d document query of
                     None \<Rightarrow> resultCollector
                   | Some element \<Rightarrow> addNode element resultCollector)
         | MatchExactClassNamesJob \<Rightarrow>
             if query \<noteq> [] then
               addNodesToResults (getElementsByClassName d document query) resultCollector
             else resultCollector
         | MatchExactTagNamesJob \<Rightarrow>
             if query \<noteq> [] then
               addNodesToResults (getElementsByName d document query) resultCollector
             else resultCollector
         | MatchQuerySelectorAllJob \<Rightarrow>
             if query = [] then resultCollector
             else (case querySelectorAll d document query of
                     None \<Rightarrow> resultCollector
                   | Some nodes \<Rightarrow> addNodesToResults nodes resultCollector)
         | MatchXPathJob \<Rightarrow>
             if query = [] then resultCollector
             else (case evaluate d document query of
                     None \<Rightarrow> resultCollector
                   | Some nodes \<Rightarrow> addNodesToResults nodes resultCollector)))"

text \<open>\<^verbatim>\<open>MatchPlainTextJob\<close> is a \<^verbatim>\<open>MatchXPathJob\<close> whose constructor rewrites the query.\<close>

definition apostrophe :: string where
  "apostrophe = [CHR 0x27]"

definition MatchPlainTextJob :: "node \<Rightarrow> string \<Rightarrow> matchJob" where
  "MatchPlainTextJob document query =
     MatchJob MatchXPathJob document
       (''//text()[contains(., '' @ apostrophe @ query @ apostrophe
          @ '')] | //comment()[contains(., '' @ apostrophe @ query @ apostrophe @ '')]'')"

definition searchCanceled :: "agent \<Rightarrow> agent" where
  "searchCanceled s =
     s\<lparr> matchJobsTimer := None, pendingMatchJobs := [], searchResults := [] \<rparr>"

text \<open>
  The loop of \<^verbatim>\<open>reportNodesAsSearchResults\<close> over the collector, with the array
  \<^verbatim>\<open>nodeIds\<close> built so far.
\<close>

fun collectNodeIds :: "dom \<Rightarrow> node list \<Rightarrow> int list \<Rightarrow> agent \<Rightarrow> error + (int list \<times> agent)" where
  "collectNodeIds d [] nodeIds s = Inr (nodeIds, s)"
| "collectNodeIds d (n # rest) nodeIds s =
     (if n \<in> set (searchResults s) then collectNodeIds d rest nodeIds s
      else
        (case pushNodePathToFrontend d n (s\<lparr>searchResults := searchResults s @ [n]\<rparr>) of
           Inl e \<Rightarrow> Inl e
         | Inr (nid, s1) \<Rightarrow> collectNodeIds d rest (nodeIds @ [nid]) s1))"

definition reportNodesAsSearchResults :: "dom \<Rightarrow> node list \<Rightarrow> agent \<Rightarrow> error + agent" where
  "reportNodesAsSearchResults d resultCollector s =
     (case collectNodeIds d resultCollector [] s of
        Inl e \<Rightarrow> Inl e
      | Inr (nodeIds, s1) \<Rightarrow> Inr (send (AddNodesToSearchResult nodeIds) s1))"

text \<open>One tick of the timer; the next one is asked for after 25 milliseconds.\<close>

definition onMatchJobsTimer :: "dom \<Rightarrow> agent \<Rightarrow> error + agent" where
  "onMatchJobsTimer d s =
     (case pendingMatchJobs s of
        [] \<Rightarrow> Inr (searchCanceled s)
      | job # rest \<Rightarrow>
          (case reportNodesAsSearchResults d (matchJob d job [])
                  (s\<lparr>pendingMatchJobs := rest\<rparr>) of
             Inl e \<Rightarrow> Inl e
           | Inr s1 \<Rightarrow> Inr (s1\<lparr>matchJobsTimer := Some 25\<rparr>)))"

text \<open>
  WTF strings: \<^verbatim>\<open>find\<close> and \<^verbatim>\<open>reverseFind\<close> give the index of the first and of the last
  occurrence of a character, or -1; \<^verbatim>\<open>substring(pos, len)\<close> takes unsigned arguments, so an
  \<^verbatim>\<open>int\<close> is reduced modulo \<open>2^32\<close>; \<^verbatim>\<open>replace("'", "\\'")\<close> puts a backslash before every
  apostrophe.
\<close>

fun find_index_from :: "char \<Rightarrow> string \<Rightarrow> int \<Rightarrow> int" where
  "find_index_from c [] i = - 1"
| "find_index_from c (x # xs) i = (if x = c then i else find_index_from c xs (i + 1))"

definition find_char :: "string \<Rightarrow> char \<Rightarrow> int" where
  "find_char str c = find_index_from c str 0"

definition reverseFind :: "string \<Rightarrow> char \<Rightarrow> int" where
  "reverseFind str c =
     (let i = find_index_from c (rev str) 0
      in if i = - 1 then - 1 else int (length str) - 1 - i)"

definition substring :: "string \<Rightarrow> int \<Rightarrow> int \<Rightarrow> string" where
  "substring str pos len =
     take (nat (len mod 4294967296)) (drop (nat (pos mod 4294967296)) str)"

definition escapeApostrophes :: "string \<Rightarrow> string" where
  "escapeApostrophes str =
     concat (map (\<lambda>c. if c = CHR 0x27 then [CHR 0x5C, CHR 0x27] else [c]) str)"

text \<open>The jobs that one iteration of the loop over the frames appends.\<close>

definition jobsForDocument ::
  "string \<Rightarrow> string \<Rightarrow> string \<Rightarrow> string \<Rightarrow> string \<Rightarrow> bool \<Rightarrow> bool \<Rightarrow> node option \<Rightarrow> matchJob list" where
  "jobsForDocument whitespaceTrimmedQuery tagNameQuery attributeNameQuery escapedQuery
       escapedTagNameQuery startTagFound endTagFound frameDocument =
     (case frameDocument of
        None \<Rightarrow> []
      | Some document \<Rightarrow>
          if tagNameQuery \<noteq> [] \<and> startTagFound \<and> endTagFound then
            [MatchJob MatchExactTagNamesJob document tagNameQuery,
             MatchPlainTextJob document escapedQuery]
          else if tagNameQuery \<noteq> [] \<and> startTagFound then
            [MatchJob MatchXPathJob document
               (''//*[starts-with(name(), '' @ apostrophe @ escapedTagNameQuery @ apostrophe @ '')]''),
             MatchPlainTextJob document escapedQuery]
          else if tagNameQuery \<noteq> [] \<and> endTagFound then
            [MatchJob MatchXPathJob document
               (''//*[contains(name(), '' @ apostrophe @ escapedTagNameQuery @ apostrophe @ '')]''),
             MatchPlainTextJob document escapedQuery]
          else if whitespaceTrimmedQuery = ''//*'' \<or> whitespaceTrimmedQuery = ''*'' then
            [MatchJob MatchXPathJob document
               (''//*[contains(@*, '' @ apostrophe @ escapedQuery @ apostrophe @ '')]''),
             MatchPlainTextJob document escapedQuery]
          else
            [MatchJob MatchExactIdJob document whitespaceTrimmedQuery,
             MatchJob MatchExactClassNamesJob document whitespaceTrimmedQuery,
             MatchJob MatchExactTagNamesJob document tagNameQuery,
             MatchJob MatchQuerySelectorAllJob document (''['' @ attributeNameQuery @ '']''),
             MatchJob MatchQuerySelectorAllJob document whitespaceTrimmedQuery,
             MatchJob MatchXPathJob document
               (''//*[contains(@*, '' @ apostrophe @ escapedQuery @ apostrophe @ '')]'')]
            @ (if tagNameQuery \<noteq> [] then
                 [MatchJob MatchXPathJob document
                    (''//*[contains(name(), '' @ apostrophe @ escapedTagNameQuery
                       @ apostrophe @ '')]'')]
               else [])
            @ [MatchPlainTextJob document escapedQuery,
               MatchJob MatchXPathJob document whitespaceTrimmedQuery])"

text \<open>The loop of the synchronous run: every pending job adds to one collector.\<close>

fun matchJobs :: "dom \<Rightarrow> matchJob list \<Rightarrow> node list \<Rightarrow> node list" where
  "matchJobs d [] resultCollector = resultCollector"
| "matchJobs d (job # jobs) resultCollector = matchJobs d jobs (matchJob d job resultCollector)"

definition performSearch :: "dom \<Rightarrow> string \<Rightarrow> bool \<Rightarrow> agent \<Rightarrow> error + agent" where
  "performSearch d whitespaceTrimmedQuery runSynchronously s =
     (let queryLength = int (length whitespaceTrimmedQuery);
          startTagFound = (find_char whitespaceTrimmedQuery CHR ''<'' = 0);
          endTagFound = (reverseFind whitespaceTrimmedQuery CHR ''>'' + 1 = queryLength);
          tagNameQuery0 =
            (if startTagFound \<or> endTagFound then
               substring whitespaceTrimmedQuery (if startTagFound then 1 else 0)
                 (if endTagFound then queryLength - 1 else queryLength)
             else whitespaceTrimmedQuery);
          tagNameQuery = (if \<not> isValidName d tagNameQuery0 then [] else tagNameQuery0);
          attributeNameQuery =
            (if \<not> isValidName d whitespaceTrimmedQuery then [] else whitespaceTrimmedQuery);
          escapedQuery = escapeApostrophes whitespaceTrimmedQuery;
          escapedTagNameQuery = escapeApostrophes tagNameQuery;
          s1 = searchCanceled s
      in case mainFrameDocument s1 of
           None \<Rightarrow> Inl NullPointer
         | Some mainDocument \<Rightarrow>
             (let s2 = s1\<lparr>pendingMatchJobs := pendingMatchJobs s1 @
                          concat (map (jobsForDocument whitespaceTrimmedQuery tagNameQuery
                                         attributeNameQuery escapedQuery escapedTagNameQuery
                                         startTagFound endTagFound)
                                    (frameDocuments d mainDocument))\<rparr>
              in if runSynchronously then
                   (case reportNodesAsSearchResults d (matchJobs d (pendingMatchJobs s2) []) s2 of
                      Inl e \<Rightarrow> Inl e
                    | Inr s3 \<Rightarrow> Inr (searchCanceled s3))
                 else Inr (s2\<lparr>matchJobsTimer := Some 0\<rparr>)))"

section \<open>Documents, events and the remaining requests\<close>

text \<open>
  \<^verbatim>\<open>reset\<close> cancels the search, discards the bindings and stops listening to every
  document of a copy of \<^verbatim>\<open>m_documents\<close>.
\<close>

definition reset :: "agent \<Rightarrow> agent" where
  "reset s =
     (let s1 = discardBindings (searchCanceled s)
      in fold (\<lambda>doc. stopListening (Some doc)) (documents s1) s1)"

text \<open>\<^verbatim>\<open>Document::documentElement\<close> is the first child of the document that is an element.\<close>

definition documentElement :: "dom \<Rightarrow> node \<Rightarrow> node option" where
  "documentElement d doc = find (\<lambda>c. nodeType d c = ELEMENT_NODE) (childNodes d doc)"

text \<open>\<^verbatim>\<open>setDocument\<close>: the argument may be the null pointer.\<close>

definition setDocument :: "dom \<Rightarrow> node option \<Rightarrow> agent \<Rightarrow> agent" where
  "setDocument d doc s =
     (if doc = mainFrameDocument s then s
      else
        let s1 = reset s in
        case doc of
          None \<Rightarrow> send (SetDocument None) s1
        | Some dc \<Rightarrow>
            (let s2 = startListening dc s1
             in if documentElement d dc \<noteq> None then snd (pushDocumentToFrontend d s2)
                else s2))"

text \<open>
  \<^verbatim>\<open>handleEvent\<close> is registered for two types of event. The target of the event is
  \<^verbatim>\<open>event->target()->toNode()\<close>, which may be null; the map gives 0 for a null pointer.
\<close>

datatype eventType = DOMContentLoadedEvent | LoadEvent | OtherEvent

definition handleEvent :: "dom \<Rightarrow> eventType \<Rightarrow> node option \<Rightarrow> agent \<Rightarrow> agent" where
  "handleEvent d type node s =
     (case type of
        DOMContentLoadedEvent \<Rightarrow> snd (pushDocumentToFrontend d (discardBindings s))
      | OtherEvent \<Rightarrow> s
      | LoadEvent \<Rightarrow>
          (case node of
             None \<Rightarrow> s
           | Some n \<Rightarrow>
               (let frameOwnerId = get (nodeMaps s DocumentMap) n in
                if frameOwnerId = 0 then s
                else if frameOwnerId \<notin> childrenRequested s then
                  (let c = innerChildNodeCount d n s
                   in send (ChildNodeCountUpdated frameOwnerId (unsignedToInt (fst c))) (snd c))
                else
                  (let parentId = (case innerParentNode d n of
                                     None \<Rightarrow> 0
                                   | Some p \<Rightarrow> get (nodeMaps s DocumentMap) p);
                       s1 = send (ChildNodeRemoved parentId frameOwnerId) s;
                       v = buildObjectForNode d n 0 DocumentMap s1;
                       prevId = (case innerPreviousSibling d n of
                                   None \<Rightarrow> 0
                                 | Some p \<Rightarrow> get (nodeMaps (snd v) DocumentMap) p);
                       s2 = send (ChildNodeInserted parentId prevId (fst v)) (snd v)
                   in s2\<lparr>childrenRequested := childrenRequested s2 - {frameOwnerId}\<rparr>))))"

text \<open>
  \<^verbatim>\<open>changeTagName\<close>. The calls on the tree are parameters: \<open>createElement\<close> gives the
  exception code and the new element; \<open>replace\<close> stands for the copying of the attributes,
  the moving of the children and the replacement of the old element in its parent, and
  gives the last exception code, the tree after these calls and the agent after the
  notifications that the tree sent during them. The parent is dereferenced without a test.
\<close>

definition changeTagName ::
  "(dom \<Rightarrow> node \<Rightarrow> string \<Rightarrow> int \<times> node) \<Rightarrow>
   (dom \<Rightarrow> node \<Rightarrow> node \<Rightarrow> agent \<Rightarrow> int \<times> dom \<times> agent) \<Rightarrow>
     dom \<Rightarrow> int \<Rightarrow> int \<Rightarrow> string \<Rightarrow> agent \<Rightarrow> error + (dom \<times> agent)" where
  "changeTagName createElement replace d callId nodeId tagName s =
     (case nodeForId s nodeId of
        None \<Rightarrow> Inr (d, send (DidChangeTagName callId 0) s)
      | Some oldNode \<Rightarrow>
          if nodeType d oldNode \<noteq> ELEMENT_NODE
          then Inr (d, send (DidChangeTagName callId 0) s)
          else
            (let requested = (nodeId \<in> childrenRequested s);
                 c = createElement d oldNode tagName
             in if fst c \<noteq> 0 then Inr (d, send (DidChangeTagName callId 0) s)
                else
                  (case parentNode d oldNode of
                     None \<Rightarrow> Inl NullPointer
                   | Some parent \<Rightarrow>
                       (let r = replace d oldNode (snd c) s;
                            d1 = fst (snd r);
                            s1 = snd (snd r)
                        in if fst r \<noteq> 0 then Inr (d1, send (DidChangeTagName callId 0) s1)
                           else
                             (case pushNodePathToFrontend d1 (snd c) s1 of
                                Inl e \<Rightarrow> Inl e
                              | Inr (newId, s2) \<Rightarrow>
                                  (case (if requested
                                         then pushChildNodesToFrontend d1 newId s2
                                         else Inr s2) of
                                     Inl e \<Rightarrow> Inl e
                                   | Inr s3 \<Rightarrow>
                                       Inr (d1, send (DidChangeTagName callId newId) s3)))))))"

text \<open>
  \<^verbatim>\<open>nodeForPath\<close> reads a path of the form \<^verbatim>\<open>1,HTML,2,BODY,1,DIV\<close>. \<^verbatim>\<open>String::split\<close> and
  \<^verbatim>\<open>String::toUInt\<close> are parameters; \<open>toUInt\<close> gives nothing when the conversion does not
  succeed. \<open>walkPath\<close> is the loop \<^verbatim>\<open>for (i = 0; i < pathTokens.size() - 1; i += 2)\<close> on the
  tokens from index \<open>i\<close> on: it goes on while two tokens are left. The child with the number
  \<open>childNumber\<close> is reached by \<^verbatim>\<open>innerFirstChild\<close> and \<open>childNumber\<close> calls of
  \<^verbatim>\<open>innerNextSibling\<close>, and exists since the number is below the count of the children.
\<close>

fun walkPath ::
  "(string \<Rightarrow> nat option) \<Rightarrow> dom \<Rightarrow> string list \<Rightarrow> node \<Rightarrow> agent \<Rightarrow> node option \<times> agent" where
  "walkPath toUInt d (number # childName # rest) node s =
     (case toUInt number of
        None \<Rightarrow> (None, s)
      | Some childNumber \<Rightarrow>
          (let c = innerChildNodeCount d node s in
           if childNumber \<ge> fst c then (None, snd c)
           else
             (let f = innerFirstChild d node (snd c);
                  child = innerChildren d node ! childNumber
              in if nodeName d child \<noteq> childName then (None, snd f)
                 else walkPath toUInt d rest child (snd f))))"
| "walkPath toUInt d pathTokens node s = (Some node, s)"

definition nodeForPath ::
  "(string \<Rightarrow> string list) \<Rightarrow> (string \<Rightarrow> nat option) \<Rightarrow> dom \<Rightarrow> string \<Rightarrow> agent
     \<Rightarrow> node option \<times> agent" where
  "nodeForPath split toUInt d path s =
     (case mainFrameDocument s of
        None \<Rightarrow> (None, s)
      | Some node \<Rightarrow>
          (let pathTokens = split path in
           if length pathTokens = 0 then (None, s)
           else walkPath toUInt d pathTokens node s))"

text \<open>\<^verbatim>\<open>pushNodeByPathToFrontend\<close>, for an agent that has a front end.\<close>

definition pushNodeByPathToFrontend ::
  "(string \<Rightarrow> string list) \<Rightarrow> (string \<Rightarrow> nat option) \<Rightarrow> dom \<Rightarrow> int \<Rightarrow> string \<Rightarrow> agent
     \<Rightarrow> error + agent" where
  "pushNodeByPathToFrontend split toUInt d callId path s =
     (let r = nodeForPath split toUInt d path s in
      case fst r of
        None \<Rightarrow> Inr (send (DidPushNodeByPathToFrontend callId 0) (snd r))
      | Some node \<Rightarrow>
          (case pushNodePathToFrontend d node (snd r) of
             Inl e \<Rightarrow> Inl e
           | Inr (nid, s1) \<Rightarrow> Inr (send (DidPushNodeByPathToFrontend callId nid) s1)))"

text \<open>
  \<^verbatim>\<open>getEventListenersForNode\<close>. What the tree knows about listeners is a parameter:
  \<open>eventTypes\<close> gives the keys of the listener map of a node, or nothing when the node has
  no \<^verbatim>\<open>eventTargetData\<close>; \<open>eventAncestors\<close> the ancestors that an event passes;
  \<open>hasEventListeners\<close> and \<open>getEventListeners\<close> the listeners of a node for a type, of which
  only \<^verbatim>\<open>useCapture\<close> is kept. Of the object built for a listener the type, \<^verbatim>\<open>useCapture\<close>
  and the identifier of the node are kept.
\<close>

record listeners =
  eventTypes :: "node \<Rightarrow> string list option"
  eventAncestors :: "node \<Rightarrow> node list"
  hasEventListeners :: "node \<Rightarrow> string \<Rightarrow> bool"
  getEventListeners :: "node \<Rightarrow> string \<Rightarrow> bool list"

definition eventInformation ::
  "listeners \<Rightarrow> node \<Rightarrow> string list \<Rightarrow> (node \<times> string \<times> bool list) list" where
  "eventInformation l node types =
     concat (map (\<lambda>ancestor.
                    map (\<lambda>ty. (ancestor, ty, getEventListeners l ancestor ty))
                      (filter (hasEventListeners l ancestor) types))
               (rev (eventAncestors l node)))
     @ map (\<lambda>ty. (node, ty, getEventListeners l node ty)) types"

definition capturingListeners ::
  "(node \<times> string \<times> bool list) list \<Rightarrow> (node \<times> string \<times> bool) list" where
  "capturingListeners infos =
     concat (map (\<lambda>(n, ty, v). map (\<lambda>u. (n, ty, u)) (filter (\<lambda>u. u) v)) infos)"

definition bubblingListeners ::
  "(node \<times> string \<times> bool list) list \<Rightarrow> (node \<times> string \<times> bool) list" where
  "bubblingListeners infos =
     concat (map (\<lambda>(n, ty, v). map (\<lambda>u. (n, ty, u)) (filter (\<lambda>u. \<not> u) v)) (rev infos))"

text \<open>
  The calls of \<^verbatim>\<open>buildObjectForEventListener\<close>, each of which calls
  \<^verbatim>\<open>pushNodePathToFrontend\<close> on the node of the listener.
\<close>

fun buildObjectsForEventListeners ::
  "dom \<Rightarrow> (node \<times> string \<times> bool) list \<Rightarrow> (string \<times> bool \<times> int) list \<Rightarrow> agent
     \<Rightarrow> error + ((string \<times> bool \<times> int) list \<times> agent)" where
  "buildObjectsForEventListeners d [] listenersArray s = Inr (listenersArray, s)"
| "buildObjectsForEventListeners d ((n, ty, u) # rest) listenersArray s =
     (case pushNodePathToFrontend d n s of
        Inl e \<Rightarrow> Inl e
      | Inr (nid, s1) \<Rightarrow>
          buildObjectsForEventListeners d rest (listenersArray @ [(ty, u, nid)]) s1)"

definition getEventListenersForNode ::
  "listeners \<Rightarrow> dom \<Rightarrow> int \<Rightarrow> int \<Rightarrow> agent \<Rightarrow> error + agent" where
  "getEventListenersForNode l d callId nodeId s =
     (case nodeForId s nodeId of
        None \<Rightarrow> Inr (send (DidGetEventListenersForNode callId nodeId []) s)
      | Some node \<Rightarrow>
          (case eventTypes l node of
             None \<Rightarrow> Inr (send (DidGetEventListenersForNode callId nodeId []) s)
           | Some types \<Rightarrow>
               if length types = 0
               then Inr (send (DidGetEventListenersForNode callId nodeId []) s)
               else
                 (let infos = eventInformation l node types in
                  case buildObjectsForEventListeners d
                         (capturingListeners infos @ bubblingListeners infos) [] s of
                    Inl e \<Rightarrow> Inl e
                  | Inr (listenersArray, s1) \<Rightarrow>
                      Inr (send (DidGetEventListenersForNode callId nodeId listenersArray)
                             s1))))"

text \<open>
  The notifications that the tree sends to the agent during a call that changes it, each
  with the tree as it is at that moment.
\<close>

datatype notification = NodeInserted dom node | NodeRemoved dom node

fun notify :: "notification list \<Rightarrow> agent \<Rightarrow> agent" where
  "notify [] s = s"
| "notify (NodeInserted d n # rest) s = notify rest (didInsertDOMNode d n s)"
| "notify (NodeRemoved d n # rest) s = notify rest (didRemoveDOMNode d n s)"

section \<open>Sessions of binding calls\<close>

text \<open>
  The identity maps, \<^verbatim>\<open>m_idToNode\<close> and \<^verbatim>\<open>m_lastNodeId\<close> are written by \<^verbatim>\<open>bind\<close>,
  \<^verbatim>\<open>unbind\<close>, \<^verbatim>\<open>discardBindings\<close> and the allocation of a map for a detached subtree, and
  by nothing else in the file. A session is a sequence of such calls, each on the tree as it
  is at that moment; \<open>session\<close> runs it and lists, for every call of \<^verbatim>\<open>bind\<close>, the node,
  the map and the identifier returned.
\<close>

datatype call =
    Bind node mapRef
  | Unbind dom node mapRef
  | DiscardBindings
  | NewDanglingMap

fun session :: "call list \<Rightarrow> agent \<Rightarrow> (node \<times> mapRef \<times> int) list" where
  "session [] s = []"
| "session (Bind n m # calls) s = (n, m, fst (bind n m s)) # session calls (snd (bind n m s))"
| "session (Unbind d n m # calls) s = session calls (unbind d n m s)"
| "session (DiscardBindings # calls) s = session calls (discardBindings s)"
| "session (NewDanglingMap # calls) s = session calls (snd (newDanglingMap s))"

section \<open>Example trees\<close>

text \<open>
  A page: the document 0 holds the element 1, whose children are the element 2 (with the
  text 5), the whitespace text 3, the element 4 and the frame owner 6. The frame holds the
  document 7 with the element 8. The node 9 is a whitespace text without a parent and the
  node 10 an element without a parent.
\<close>

definition page :: dom where
  "page =
     \<lparr> nodeType = (\<lambda>n. if n = 0 \<or> n = 7 then DOCUMENT_NODE
                        else if n = 3 \<or> n = 5 \<or> n = 9 then TEXT_NODE else ELEMENT_NODE),
       nodeName = (\<lambda>n. if n = 0 \<or> n = 7 then ''#document''
                        else if n = 3 \<or> n = 5 \<or> n = 9 then ''#text''
                        else if n = 6 then ''IFRAME'' else ''DIV''),
       localName = (\<lambda>n. if n = 0 \<or> n = 7 \<or> n = 3 \<or> n = 5 \<or> n = 9 then []
                         else if n = 6 then ''iframe'' else ''div''),
       nodeValue = (\<lambda>n. if n = 3 \<or> n = 9 then ''  '' else if n = 5 then ''x'' else []),
       parentNode = (\<lambda>n. if n = 1 then Some 0
                          else if n = 2 \<or> n = 3 \<or> n = 4 \<or> n = 6 then Some 1
                          else if n = 5 then Some 2
                          else if n = 8 then Some 7 else None),
       childNodes = (\<lambda>n. if n = 0 then [1] else if n = 1 then [2, 3, 4, 6]
                          else if n = 2 then [5] else if n = 7 then [8] else []),
       isHTMLElement = (\<lambda>n. n = 1 \<or> n = 2 \<or> n = 4 \<or> n = 6 \<or> n = 8 \<or> n = 10),
       isFrameOwnerElement = (\<lambda>n. n = 6),
       contentDocument = (\<lambda>n. if n = 6 then Some 7 else None),
       ownerElement = (\<lambda>n. if n = 7 then Some 6 else None),
       documentURL = (\<lambda>n. if n = 0 then Some ''http://page/'' else None),
       attributes = (\<lambda>n. if n = 2 then Some [(''id'', ''a'')] else None),
       docTypeIds = (\<lambda>n. ([], [], [])),
       frameDocuments = (\<lambda>n. if n = 0 then [Some 0, Some 7] else []),
       isValidName = (\<lambda>str. str = ''a'' \<or> str = ''div''),
       getElementById = (\<lambda>doc str. if doc = 0 \<and> str = ''a'' then Some 2 else None),
       getElementsByClassName = (\<lambda>doc str. []),
       getElementsByName = (\<lambda>doc str. []),
       querySelectorAll = (\<lambda>doc str. if doc = 0 \<and> str = ''[a]'' then Some [] else None),
       evaluate = (\<lambda>doc str. None) \<rparr>"

text \<open>The agent listening to the document 0 and to the frame's document 7.\<close>

definition listening :: agent where
  "listening = InspectorDOMAgent\<lparr>documents := [0, 7]\<rparr>"

section \<open>Termination of unbind\<close>

lemma length_delete_less:
  "map_of m k \<noteq> None \<Longrightarrow> length (AList.delete k m) < length m"
  by (induction m) (auto simp: AList.delete_eq less_Suc_eq_le split: if_splits)

lemma get_nonzero_map_of: "get m k \<noteq> 0 \<Longrightarrow> map_of m k \<noteq> None"
  by (auto simp: get_def split: option.splits)

lemma nodeMaps_unbindFrameOwner [simp]: "nodeMaps (unbindFrameOwner d n s) = nodeMaps s"
  by (simp add: unbindFrameOwner_def stopListening_def Let_def split: option.splits)

lemma nodeMaps_innerFirstChild [simp]: "nodeMaps (snd (innerFirstChild d n s)) = nodeMaps s"
  by (simp add: innerFirstChild_def startListening_def split: option.splits)

lemma unbind_length_le_dom:
  "unbind_unbindChildren_dom (Inl (d, n, M, s)) \<Longrightarrow>
     length (nodeMaps (unbind d n M s) M) \<le> length (nodeMaps s M)"
  "unbind_unbindChildren_dom (Inr (d, cs, M, s)) \<Longrightarrow>
     length (nodeMaps (unbindChildren d cs M s) M) \<le> length (nodeMaps s M)"
proof (induct rule: unbind_unbindChildren.pinduct)
  case (1 d node nodesMap s)
  show ?case
    using 1(2)[OF refl refl _ refl]
    by (auto simp: unbind.psimps[OF 1(1)] Let_def forget_def AList.length_delete_le
        intro: order_trans[OF _ AList.length_delete_le])
next
  case (2 d nodesMap s)
  then show ?case by (simp add: unbindChildren.psimps)
next
  case (3 d child rest nodesMap s)
  then show ?case by (simp add: unbindChildren.psimps)
qed

text \<open>
  Every call of \<^verbatim>\<open>unbind\<close> that goes on to the children has removed an entry from the
  map, and no call adds one: the recursion ends on every tree, whatever its shape.
\<close>

termination unbind
proof (relation "inv_image (less_than <*lex*> less_than)
    (\<lambda>x. case x of Inl (d, n, M, s) \<Rightarrow> (length (nodeMaps s M), 0::nat)
                  | Inr (d, cs, M, s) \<Rightarrow> (length (nodeMaps s M), Suc (length cs)))", goal_cases)
  case 1
  show ?case by (intro wf_inv_image wf_lex_prod wf_less_than)
next
  case (2 d node nodesMap s x xa xb)
  then show ?case
    by (simp add: forget_def length_delete_less get_nonzero_map_of)
next
  case (3 d child rest nodesMap s)
  then show ?case by simp
next
  case (4 d child rest nodesMap s)
  then show ?case
    using unbind_length_le_dom(1)[OF 4] by auto
qed

declare unbind.simps [simp del]

section \<open>Unbinding a node that is not bound\<close>

lemma unbind_unbound:
  "get (nodeMaps s M) n = 0 \<Longrightarrow> unbind d n M s = unbindFrameOwner d n s"
  by (simp add: unbind.simps Let_def)

text \<open>
  Claim C8 says that \<^verbatim>\<open>unbind\<close> of a node without an identifier in the map leaves the
  whole state as it was, the set of documents listened to included. The frame owner 6 of
  the example page has no identifier, and \<^verbatim>\<open>unbind\<close> stops listening to its document 7:
  the test for the identifier comes after the code for frame owners.
\<close>

theorem unbind_unbound_counterexample:
  "get (nodeMaps listening DocumentMap) 6 = 0 \<and>
   documents listening = [0, 7] \<and>
   documents (unbind page 6 DocumentMap listening) = [0]"
  by (simp add: unbind_unbound unbindFrameOwner_def stopListening_def listening_def
      InspectorDOMAgent_def get_def page_def)

text \<open>
  Claim C8 as amended. For a node without an identifier in the map: when the node is not a
  frame owner, \<^verbatim>\<open>unbind\<close> returns the state unchanged; when it is a frame owner, the
  only changes are that its content document is no longer listened to and that the style
  store is told to remove that document. The identity maps, the index from identifiers to
  nodes and the set of disclosed identifiers are unchanged in both cases.
\<close>

theorem unbind_unbound_frame:
  assumes "get (nodeMaps s M) n = 0"
  shows "(\<not> isFrameOwnerElement d n \<longrightarrow> unbind d n M s = s) \<and>
         (isFrameOwnerElement d n \<longrightarrow>
            unbind d n M s =
              s\<lparr> documents := (case contentDocument d n of
                                  None \<Rightarrow> documents s
                                | Some doc \<Rightarrow> removeAll doc (documents s)),
                 cssStoreRemoved := cssStoreRemoved s @ [contentDocument d n] \<rparr>)"
  using assms
  by (auto simp: unbind_unbound unbindFrameOwner_def stopListening_def Let_def
      split: option.splits)

theorem unbind_unbound_frame_witness:
  "get (nodeMaps listening DocumentMap) 2 = 0 \<and> \<not> isFrameOwnerElement page 2 \<and>
   unbind page 2 DocumentMap listening = listening \<and>
   get (nodeMaps listening DocumentMap) 6 = 0 \<and> isFrameOwnerElement page 6 \<and>
   unbind page 6 DocumentMap listening =
     listening\<lparr>documents := [0], cssStoreRemoved := [Some 7]\<rparr>"
proof -
  have g: "get (nodeMaps listening DocumentMap) 2 = 0" "get (nodeMaps listening DocumentMap) 6 = 0"
    by (simp_all add: listening_def InspectorDOMAgent_def get_def)
  have p: "\<not> isFrameOwnerElement page 2" "isFrameOwnerElement page 6"
    "contentDocument page 6 = Some 7"
    by (simp_all add: page_def)
  have l: "documents listening = [0, 7]" "cssStoreRemoved listening = []"
    by (simp_all add: listening_def InspectorDOMAgent_def)
  from unbind_unbound_frame [OF g(1), of page] unbind_unbound_frame [OF g(2), of page] g p l
  show ?thesis by simp
qed

section \<open>What unbind leaves alone\<close>

lemma fields_unbindFrameOwner [simp]:
  "lastNodeId (unbindFrameOwner d n s) = lastNodeId s"
  "idToNode (unbindFrameOwner d n s) = idToNode s"
  "idToNodesMap (unbindFrameOwner d n s) = idToNodesMap s"
  "childrenRequested (unbindFrameOwner d n s) = childrenRequested s"
  "frontend (unbindFrameOwner d n s) = frontend s"
  "danglingNodeToIdMaps (unbindFrameOwner d n s) = danglingNodeToIdMaps s"
  "mapsAllocated (unbindFrameOwner d n s) = mapsAllocated s"
  by (simp_all add: unbindFrameOwner_def stopListening_def Let_def split: option.splits)

lemma fields_innerFirstChild [simp]:
  "lastNodeId (snd (innerFirstChild d n s)) = lastNodeId s"
  "idToNode (snd (innerFirstChild d n s)) = idToNode s"
  "idToNodesMap (snd (innerFirstChild d n s)) = idToNodesMap s"
  "childrenRequested (snd (innerFirstChild d n s)) = childrenRequested s"
  "frontend (snd (innerFirstChild d n s)) = frontend s"
  "danglingNodeToIdMaps (snd (innerFirstChild d n s)) = danglingNodeToIdMaps s"
  "mapsAllocated (snd (innerFirstChild d n s)) = mapsAllocated s"
  by (simp_all add: innerFirstChild_def startListening_def split: option.splits)

lemma unbind_fields:
  "lastNodeId (unbind d n M s) = lastNodeId s \<and> frontend (unbind d n M s) = frontend s
   \<and> idToNodesMap (unbind d n M s) = idToNodesMap s"
  "lastNodeId (unbindChildren d cs M s) = lastNodeId s
   \<and> frontend (unbindChildren d cs M s) = frontend s
   \<and> idToNodesMap (unbindChildren d cs M s) = idToNodesMap s"
proof (induction d n M s and d cs M s rule: unbind_unbindChildren.induct)
  case (1 d node nodesMap s)
  show ?case
    using 1[OF refl refl _ refl]
    by (subst (1 2 3) unbind.simps) (auto simp: Let_def forget_def)
qed simp_all

definition mapsLe :: "agent \<Rightarrow> agent \<Rightarrow> bool" where
  "mapsLe s' s = (\<forall>M. map_of (nodeMaps s' M) \<subseteq>\<^sub>m map_of (nodeMaps s M))"

lemma mapsLe_refl [simp]: "mapsLe s s"
  by (simp add: mapsLe_def)

lemma mapsLe_trans: "mapsLe s2 s1 \<Longrightarrow> mapsLe s1 s \<Longrightarrow> mapsLe s2 s"
  by (auto simp: mapsLe_def intro: map_le_trans)

lemma mapsLe_same: "nodeMaps s' = nodeMaps s \<Longrightarrow> mapsLe s' s"
  by (simp add: mapsLe_def)

lemma mapsLe_forget: "mapsLe (forget n M i s) s"
  by (auto simp: mapsLe_def forget_def AList.delete_conv' map_le_def)

lemma unbind_mapsLe:
  "mapsLe (unbind d n M s) s"
  "mapsLe (unbindChildren d cs M s) s"
proof (induction d n M s and d cs M s rule: unbind_unbindChildren.induct)
  case (1 d node nodesMap s)
  let ?s1 = "unbindFrameOwner d node s"
  let ?i = "get (nodeMaps ?s1 nodesMap) node"
  let ?s2 = "forget node nodesMap ?i ?s1"
  have a: "mapsLe ?s2 s"
    using mapsLe_forget[of node nodesMap ?i ?s1] by (simp add: mapsLe_def)
  show ?case
  proof (cases "?i \<noteq> 0 \<and> ?i \<in> childrenRequested ?s2")
    case True
    let ?s3 = "snd (innerFirstChild d node (?s2\<lparr>childrenRequested := childrenRequested ?s2 - {?i}\<rparr>))"
    have "mapsLe (unbindChildren d (innerChildren d node) nodesMap ?s3) ?s3"
      using 1[OF refl refl _ refl] True by simp
    moreover have "mapsLe ?s3 s" using a by (simp add: mapsLe_def)
    ultimately show ?thesis using True
      by (subst unbind.simps) (auto simp: Let_def intro: mapsLe_trans)
  next
    case False
    then show ?thesis using a
      by (subst unbind.simps) (auto simp: Let_def mapsLe_def)
  qed
next
  case (2 d nodesMap s)
  then show ?case by simp
next
  case (3 d child rest nodesMap s)
  then show ?case by (auto intro: mapsLe_trans)
qed

section \<open>The identifiers of a session\<close>

text \<open>
  Two invariants of the agent: every stored identifier is positive and below the counter,
  and no identifier is stored twice, in one map or in two.
\<close>

definition idsBelow :: "agent \<Rightarrow> bool" where
  "idsBelow s =
     (0 < lastNodeId s \<and>
      (\<forall>M n i. map_of (nodeMaps s M) n = Some i \<longrightarrow> 0 < i \<and> i < lastNodeId s))"

definition idsDistinct :: "agent \<Rightarrow> bool" where
  "idsDistinct s =
     (\<forall>M n M' n' i. map_of (nodeMaps s M) n = Some i \<and> map_of (nodeMaps s M') n' = Some i
        \<longrightarrow> n = n' \<and> M = M')"

lemma mapsLe_Some:
  "mapsLe s' s \<Longrightarrow> map_of (nodeMaps s' M) n = Some i \<Longrightarrow> map_of (nodeMaps s M) n = Some i"
  by (auto simp: mapsLe_def map_le_def dom_def)

lemma idsBelow_mapsLe:
  "idsBelow s \<Longrightarrow> mapsLe s' s \<Longrightarrow> lastNodeId s' = lastNodeId s \<Longrightarrow> idsBelow s'"
  unfolding idsBelow_def by (metis mapsLe_Some)

lemma idsDistinct_mapsLe:
  "idsDistinct s \<Longrightarrow> mapsLe s' s \<Longrightarrow> idsDistinct s'"
  unfolding idsDistinct_def by (metis mapsLe_Some)

lemma get_Some: "i \<noteq> 0 \<Longrightarrow> get m n = i \<longleftrightarrow> map_of m n = Some i"
  by (auto simp: get_def split: option.splits)

lemma idsBelow_get:
  "idsBelow s \<Longrightarrow> get (nodeMaps s M) n = i \<Longrightarrow> i \<noteq> 0 \<Longrightarrow> 0 < i \<and> i < lastNodeId s"
  by (auto simp: idsBelow_def get_def split: option.splits)

lemma idsBelow_map_of:
  "idsBelow s \<Longrightarrow> map_of (nodeMaps s M) n = Some i \<Longrightarrow> get (nodeMaps s M) n = i \<and> i \<noteq> 0"
  by (auto simp: idsBelow_def get_def split: option.splits)

lemma bind_result:
  "fst (bind n M s) = (if get (nodeMaps s M) n \<noteq> 0 then get (nodeMaps s M) n else lastNodeId s)"
  by (simp add: bind_def Let_def)

lemma bind_bound:
  "get (nodeMaps s M) n \<noteq> 0 \<Longrightarrow> snd (bind n M s) = s"
  by (simp add: bind_def Let_def)

lemma bind_fresh_maps:
  "get (nodeMaps s M) n = 0 \<Longrightarrow>
     map_of (nodeMaps (snd (bind n M s)) M') n' =
       (if M' = M \<and> n' = n then Some (lastNodeId s) else map_of (nodeMaps s M') n')"
  by (simp add: bind_def Let_def AList.update_conv')

lemma bind_fresh_counter:
  "get (nodeMaps s M) n = 0 \<Longrightarrow> lastNodeId (snd (bind n M s)) = nextLong (lastNodeId s)"
  by (simp add: bind_def Let_def)

lemma nextLong_less: "i < LONG_MAX \<Longrightarrow> nextLong i = i + 1"
  by (simp add: nextLong_def)

lemma idsBelow_bind:
  assumes "idsBelow s" "lastNodeId s < LONG_MAX"
  shows "idsBelow (snd (bind n M s))"
proof (cases "get (nodeMaps s M) n = 0")
  case True
  then show ?thesis using assms
    by (auto simp: idsBelow_def bind_fresh_maps bind_fresh_counter nextLong_less
        split: if_splits) fastforce+
next
  case False
  then show ?thesis using assms by (simp add: bind_bound)
qed

lemma idsDistinct_bind:
  assumes "idsBelow s" "idsDistinct s"
  shows "idsDistinct (snd (bind n M s))"
proof (cases "get (nodeMaps s M) n = 0")
  case True
  have "\<And>M n. map_of (nodeMaps s M) n \<noteq> Some (lastNodeId s)"
    using assms(1) by (fastforce simp: idsBelow_def)
  then show ?thesis using assms(2) True
    unfolding idsDistinct_def by (auto simp: bind_fresh_maps split: if_splits)
next
  case False
  then show ?thesis using assms by (simp add: bind_bound)
qed

lemma bind_counter_le:
  "lastNodeId s < LONG_MAX \<Longrightarrow> lastNodeId (snd (bind n M s)) \<le> lastNodeId s + 1
     \<and> lastNodeId s \<le> lastNodeId (snd (bind n M s))"
  by (simp add: bind_def Let_def nextLong_less)

lemma discardBindings_maps [simp]: "nodeMaps (discardBindings s) DocumentMap = []"
  by (simp add: discardBindings_def releaseDanglingNodes_def Let_def)

lemma mapsLe_discardBindings: "mapsLe (discardBindings s) s"
  by (auto simp: mapsLe_def discardBindings_def releaseDanglingNodes_def Let_def map_le_def)

lemma lastNodeId_discardBindings [simp]: "lastNodeId (discardBindings s) = lastNodeId s"
  by (simp add: discardBindings_def releaseDanglingNodes_def Let_def)

lemma mapsLe_newDanglingMap: "mapsLe (snd (newDanglingMap s)) s"
  by (auto simp: mapsLe_def newDanglingMap_def Let_def map_le_def)

lemma lastNodeId_newDanglingMap [simp]: "lastNodeId (snd (newDanglingMap s)) = lastNodeId s"
  by (simp add: newDanglingMap_def Let_def)

text \<open>Every identifier that a session returns is stored for its pair at the start, or is
  not below the counter at the start.\<close>

lemma session_results:
  assumes "idsBelow s" "lastNodeId s + int (length calls) \<le> LONG_MAX"
    and "(n, M, i) \<in> set (session calls s)"
  shows "(map_of (nodeMaps s M) n = Some i) \<or> lastNodeId s \<le> i"
  using assms
proof (induction calls arbitrary: s)
  case Nil
  then show ?case by simp
next
  case (Cons c calls)
  show ?case
  proof (cases c)
    case (Bind n0 M0)
    let ?s' = "snd (bind n0 M0 s)"
    have lt: "lastNodeId s < LONG_MAX" using Cons.prems(2) by simp
    have inv': "idsBelow ?s'" using Cons.prems(1) lt by (rule idsBelow_bind)
    have cnt: "lastNodeId ?s' \<le> lastNodeId s + 1" "lastNodeId s \<le> lastNodeId ?s'"
      using bind_counter_le[OF lt] by auto
    have bound': "lastNodeId ?s' + int (length calls) \<le> LONG_MAX"
      using Cons.prems(2) cnt by simp
    from Cons.prems(3) Bind
    consider (hd) "n = n0" "M = M0" "i = fst (bind n0 M0 s)"
      | (tl) "(n, M, i) \<in> set (session calls ?s')"
      by auto
    then show ?thesis
    proof cases
      case hd
      then show ?thesis
        by (auto simp: bind_result get_def split: option.splits)
    next
      case tl
      from Cons.IH[OF inv' bound' tl]
      have "map_of (nodeMaps ?s' M) n = Some i \<or> lastNodeId ?s' \<le> i" .
      then show ?thesis
      proof
        assume m: "map_of (nodeMaps ?s' M) n = Some i"
        show ?thesis
        proof (cases "get (nodeMaps s M0) n0 = 0")
          case True
          then show ?thesis using m by (auto simp: bind_fresh_maps split: if_splits)
        next
          case False
          then show ?thesis using m by (simp add: bind_bound)
        qed
      next
        assume "lastNodeId ?s' \<le> i"
        then show ?thesis using cnt by simp
      qed
    qed
  next
    case (Unbind d0 n0 M0)
    let ?s' = "unbind d0 n0 M0 s"
    have le: "mapsLe ?s' s" by (rule unbind_mapsLe)
    have c: "lastNodeId ?s' = lastNodeId s" using unbind_fields(1) by simp
    have inv': "idsBelow ?s'" using Cons.prems(1) le c by (rule idsBelow_mapsLe)
    have "(n, M, i) \<in> set (session calls ?s')" using Cons.prems(3) Unbind by simp
    from Cons.IH[OF inv' _ this] Cons.prems(2) c mapsLe_Some[OF le]
    show ?thesis by auto
  next
    case DiscardBindings
    let ?s' = "discardBindings s"
    have le: "mapsLe ?s' s" by (rule mapsLe_discardBindings)
    have inv': "idsBelow ?s'" using Cons.prems(1) le by (rule idsBelow_mapsLe) simp
    have "(n, M, i) \<in> set (session calls ?s')" using Cons.prems(3) DiscardBindings by simp
    from Cons.IH[OF inv' _ this] Cons.prems(2) mapsLe_Some[OF le]
    show ?thesis by auto
  next
    case NewDanglingMap
    let ?s' = "snd (newDanglingMap s)"
    have le: "mapsLe ?s' s" by (rule mapsLe_newDanglingMap)
    have inv': "idsBelow ?s'" using Cons.prems(1) le by (rule idsBelow_mapsLe) simp
    have "(n, M, i) \<in> set (session calls ?s')" using Cons.prems(3) NewDanglingMap by simp
    from Cons.IH[OF inv' _ this] Cons.prems(2) mapsLe_Some[OF le]
    show ?thesis by auto
  qed
qed

lemma bind_stored:
  "idsBelow s \<Longrightarrow>
     map_of (nodeMaps (snd (bind n M s)) M) n = Some (fst (bind n M s))"
  by (cases "get (nodeMaps s M) n = 0")
     (auto simp: bind_fresh_maps bind_result bind_bound get_def split: option.splits)

lemma session_nonzero:
  assumes "idsBelow s" "lastNodeId s + int (length calls) \<le> LONG_MAX"
    and "(n, M, i) \<in> set (session calls s)"
  shows "i \<noteq> 0"
  using session_results[OF assms] assms(1) by (auto simp: idsBelow_def)

lemma session_unique:
  assumes "idsBelow s" "idsDistinct s" "lastNodeId s + int (length calls) \<le> LONG_MAX"
    and "(n1, M1, i) \<in> set (session calls s)" "(n2, M2, i) \<in> set (session calls s)"
  shows "n1 = n2 \<and> M1 = M2"
  using assms
proof (induction calls arbitrary: s)
  case Nil
  then show ?case by simp
next
  case (Cons c calls)
  show ?case
  proof (cases c)
    case (Bind n0 M0)
    let ?s' = "snd (bind n0 M0 s)"
    let ?i0 = "fst (bind n0 M0 s)"
    have lt: "lastNodeId s < LONG_MAX" using Cons.prems(3) by simp
    have inv': "idsBelow ?s'" using Cons.prems(1) lt by (rule idsBelow_bind)
    have dis': "idsDistinct ?s'" using Cons.prems(1,2) by (rule idsDistinct_bind)
    have bound': "lastNodeId ?s' + int (length calls) \<le> LONG_MAX"
      using Cons.prems(3) bind_counter_le[OF lt, of n0 M0] by simp
    have st: "map_of (nodeMaps ?s' M0) n0 = Some ?i0"
      using Cons.prems(1) by (rule bind_stored)
    have below: "?i0 < lastNodeId ?s'"
      using inv' st by (auto simp: idsBelow_def)
    have same: "n = n0 \<and> M = M0" if "(n, M, ?i0) \<in> set (session calls ?s')" for n M
    proof -
      from session_results[OF inv' bound' that] below
      have "map_of (nodeMaps ?s' M) n = Some ?i0" by auto
      with st dis' show ?thesis unfolding idsDistinct_def by blast
    qed
    from Cons.prems(4) Bind
    have a: "(n1 = n0 \<and> M1 = M0 \<and> i = ?i0) \<or> (n1, M1, i) \<in> set (session calls ?s')"
      by auto
    from Cons.prems(5) Bind
    have b: "(n2 = n0 \<and> M2 = M0 \<and> i = ?i0) \<or> (n2, M2, i) \<in> set (session calls ?s')"
      by auto
    from a b show ?thesis
      using same Cons.IH[OF inv' dis' bound'] by blast
  next
    case (Unbind d0 n0 M0)
    let ?s' = "unbind d0 n0 M0 s"
    have le: "mapsLe ?s' s" by (rule unbind_mapsLe)
    have c: "lastNodeId ?s' = lastNodeId s" using unbind_fields(1) by simp
    have inv': "idsBelow ?s'" using Cons.prems(1) le c by (rule idsBelow_mapsLe)
    have dis': "idsDistinct ?s'" using Cons.prems(2) le by (rule idsDistinct_mapsLe)
    show ?thesis
      using Cons.IH[OF inv' dis'] Cons.prems(3,4,5) c Unbind by simp
  next
    case DiscardBindings
    let ?s' = "discardBindings s"
    have le: "mapsLe ?s' s" by (rule mapsLe_discardBindings)
    have inv': "idsBelow ?s'" using Cons.prems(1) le by (rule idsBelow_mapsLe) simp
    have dis': "idsDistinct ?s'" using Cons.prems(2) le by (rule idsDistinct_mapsLe)
    show ?thesis
      using Cons.IH[OF inv' dis'] Cons.prems(3,4,5) DiscardBindings by simp
  next
    case NewDanglingMap
    let ?s' = "snd (newDanglingMap s)"
    have le: "mapsLe ?s' s" by (rule mapsLe_newDanglingMap)
    have inv': "idsBelow ?s'" using Cons.prems(1) le by (rule idsBelow_mapsLe) simp
    have dis': "idsDistinct ?s'" using Cons.prems(2) le by (rule idsDistinct_mapsLe)
    show ?thesis
      using Cons.IH[OF inv' dis'] Cons.prems(3,4,5) NewDanglingMap by simp
  qed
qed

lemma idsBelow_init: "idsBelow InspectorDOMAgent"
  by (simp add: idsBelow_def InspectorDOMAgent_def)

lemma idsDistinct_init: "idsDistinct InspectorDOMAgent"
  by (simp add: idsDistinct_def InspectorDOMAgent_def)

text \<open>
  A session on the example page: node 2 is bound in the map of the document and in a map
  for a detached subtree, unbound, bound again, and node 4 is bound.
\<close>

definition twoMaps :: "call list" where
  "twoMaps = [Bind 2 DocumentMap, NewDanglingMap, Bind 2 (DanglingMap 0), Unbind page 2 DocumentMap,
     Bind 2 DocumentMap, Bind 4 DocumentMap, Bind 2 DocumentMap]"

lemma twoMaps_session:
  "session twoMaps InspectorDOMAgent =
     [(2, DocumentMap, 1), (2, DanglingMap 0, 2), (2, DocumentMap, 3), (4, DocumentMap, 4),
      (2, DocumentMap, 3)]"
  by (simp add: twoMaps_def bind_def Let_def get_def InspectorDOMAgent_def nextLong_def
      LONG_MAX_def newDanglingMap_def unbind.simps unbindFrameOwner_def page_def forget_def)

text \<open>
  Claim C2 (global uniqueness). In a session that starts from the constructed agent and
  makes fewer than \<open>LONG_MAX\<close> calls, so that the counter does not wrap around, two calls
  of \<^verbatim>\<open>bind\<close> on different pairs of a node and a map return different identifiers,
  also when the two maps differ and whatever was unbound or discarded in between.
\<close>

theorem identifiers_unique:
  assumes "int (length calls) < LONG_MAX"
    and "(n1, M1, i1) \<in> set (session calls InspectorDOMAgent)"
    and "(n2, M2, i2) \<in> set (session calls InspectorDOMAgent)"
    and "(n1, M1) \<noteq> (n2, M2)"
  shows "i1 \<noteq> i2"
proof
  assume "i1 = i2"
  moreover have "lastNodeId InspectorDOMAgent + int (length calls) \<le> LONG_MAX"
    using assms(1) by (simp add: InspectorDOMAgent_def)
  ultimately show False
    using session_unique[OF idsBelow_init idsDistinct_init _ assms(2), of n2 M2] assms(3,4)
    by auto
qed

theorem identifiers_unique_witness:
  "int (length twoMaps) < LONG_MAX \<and>
   (2, DanglingMap 0, 2) \<in> set (session twoMaps InspectorDOMAgent) \<and>
   (4, DocumentMap, 4) \<in> set (session twoMaps InspectorDOMAgent) \<and>
   (2, DanglingMap 0) \<noteq> (4, DocumentMap) \<and> (2::int) \<noteq> 4"
proof -
  have l: "int (length twoMaps) < LONG_MAX" by (simp add: twoMaps_def LONG_MAX_def)
  have a: "(2, DanglingMap 0, 2) \<in> set (session twoMaps InspectorDOMAgent)"
    and b: "(4, DocumentMap, 4) \<in> set (session twoMaps InspectorDOMAgent)"
    by (simp_all add: twoMaps_session)
  have p: "(2::nat, DanglingMap 0) \<noteq> (4, DocumentMap)" by simp
  from identifiers_unique[OF l a b p] l a b show ?thesis by simp
qed

text \<open>
  Claim C10 (0 is never an identifier). The counter of the constructed agent is 1; in a
  session of fewer than \<open>LONG_MAX\<close> calls every identifier that \<^verbatim>\<open>bind\<close> returns is not
  0; \<^verbatim>\<open>nodeForId(0)\<close> is null whatever \<^verbatim>\<open>m_idToNode\<close> holds; and \<^verbatim>\<open>inspectedNode\<close>
  returns 0 for an index that is not below the size of the list.
\<close>

theorem identifiers_nonzero:
  "lastNodeId InspectorDOMAgent = 1 \<and>
   (int (length calls) < LONG_MAX \<longrightarrow>
      (\<forall>r \<in> set (session calls InspectorDOMAgent). snd (snd r) \<noteq> 0)) \<and>
   nodeForId (s\<lparr>idToNode := index\<rparr>) 0 = None \<and>
   (length (inspectedNodes s) \<le> num \<longrightarrow> inspectedNode s num = 0)"
proof -
  have "snd (snd r) \<noteq> 0"
    if "int (length calls) < LONG_MAX" "r \<in> set (session calls InspectorDOMAgent)" for r
  proof -
    obtain n M i where r: "r = (n, M, i)" by (cases r)
    have "lastNodeId InspectorDOMAgent + int (length calls) \<le> LONG_MAX"
      using that(1) by (simp add: InspectorDOMAgent_def)
    from session_nonzero[OF idsBelow_init this] that(2) r show ?thesis by auto
  qed
  then show ?thesis
    by (simp add: InspectorDOMAgent_def nodeForId_def inspectedNode_def)
qed

theorem identifiers_nonzero_witness:
  "int (length twoMaps) < LONG_MAX \<and>
   (2, DocumentMap, 3) \<in> set (session twoMaps InspectorDOMAgent) \<and> (3::int) \<noteq> 0 \<and>
   length (inspectedNodes (addInspectedNode 7 InspectorDOMAgent)) \<le> 3 \<and>
   inspectedNode (addInspectedNode 7 InspectorDOMAgent) 3 = 0 \<and>
   inspectedNode (addInspectedNode 7 InspectorDOMAgent) 0 = 7 \<and>
   nodeForId ((snd (bind 5 DocumentMap InspectorDOMAgent))\<lparr>idToNode := (\<lambda>_. Some 5)\<rparr>) 0 = None"
proof -
  have l: "int (length twoMaps) < LONG_MAX" by (simp add: twoMaps_def LONG_MAX_def)
  have a: "(2, DocumentMap, 3) \<in> set (session twoMaps InspectorDOMAgent)"
    by (simp add: twoMaps_session)
  have i: "length (inspectedNodes (addInspectedNode 7 InspectorDOMAgent)) \<le> 3"
    "inspectedNode (addInspectedNode 7 InspectorDOMAgent) 0 = 7"
    by (simp_all add: addInspectedNode_def InspectorDOMAgent_def inspectedNode_def)
  from identifiers_nonzero [where calls = twoMaps
      and s = "snd (bind 5 DocumentMap InspectorDOMAgent)" and index = "\<lambda>_. Some 5"
      and num = 3]
    identifiers_nonzero [where calls = twoMaps
      and s = "addInspectedNode 7 InspectorDOMAgent" and index = "\<lambda>_. None" and num = 3]
    l a i
  show ?thesis by auto
qed

section \<open>Binding twice\<close>

text \<open>
  The state after one call of a session, and the states that a session goes through, the
  first one included.
\<close>

fun after :: "call \<Rightarrow> agent \<Rightarrow> agent" where
  "after (Bind n m) s = snd (bind n m s)"
| "after (Unbind d n m) s = unbind d n m s"
| "after DiscardBindings s = discardBindings s"
| "after NewDanglingMap s = snd (newDanglingMap s)"

fun states :: "call list \<Rightarrow> agent \<Rightarrow> agent list" where
  "states [] s = [s]"
| "states (c # calls) s = s # states calls (after c s)"

definition rebinding :: "call list" where
  "rebinding = [Bind 2 DocumentMap, Unbind page 2 DocumentMap, Bind 2 DocumentMap]"

lemma after_keeps:
  assumes "get (nodeMaps (after c s) M) n \<noteq> 0" and "get (nodeMaps s M) n \<noteq> 0"
  shows "get (nodeMaps (after c s) M) n = get (nodeMaps s M) n"
proof (cases c)
  case (Bind n' M')
  then show ?thesis
    using assms by (auto simp: bind_def Let_def get_def AList.update_conv' split: if_splits)
next
  case (Unbind d n' M')
  have "mapsLe (unbind d n' M' s) s" by (rule unbind_mapsLe(1))
  then show ?thesis
    using assms Unbind by (auto simp: get_def split: option.splits dest: mapsLe_Some)
next
  case DiscardBindings
  then show ?thesis
    using assms
    by (auto simp: discardBindings_def releaseDanglingNodes_def Let_def get_def split: if_splits)
next
  case NewDanglingMap
  then show ?thesis
    using assms by (auto simp: newDanglingMap_def Let_def get_def split: if_splits)
qed

lemma states_keep:
  "\<forall>t \<in> set (states calls s). get (nodeMaps t M) n \<noteq> 0 \<Longrightarrow>
   t \<in> set (states calls s) \<Longrightarrow> get (nodeMaps t M) n = get (nodeMaps s M) n"
proof (induction calls arbitrary: s)
  case Nil
  then show ?case by simp
next
  case (Cons c calls)
  show ?case
  proof (cases "t = s")
    case True
    then show ?thesis by simp
  next
    case False
    then have m: "t \<in> set (states calls (after c s))"
      using Cons.prems(2) by simp
    have "after c s \<in> set (states calls (after c s))"
      by (cases calls) simp_all
    then have b: "get (nodeMaps (after c s) M) n \<noteq> 0"
      using Cons.prems(1) by simp
    have "get (nodeMaps t M) n = get (nodeMaps (after c s) M) n"
      using Cons.IH[OF _ m] Cons.prems(1) by simp
    moreover have "get (nodeMaps s M) n \<noteq> 0"
      using Cons.prems(1) by simp
    ultimately show ?thesis
      using after_keeps[OF b] by simp
  qed
qed

lemma bind_bound_again: "get (nodeMaps s M) n \<noteq> 0 \<Longrightarrow> bind n M s = (get (nodeMaps s M) n, s)"
  by (simp add: bind_def Let_def)

lemma states_last: "last (states calls s) \<in> set (states calls s)"
  by (cases calls) simp_all

text \<open>
  Claim C1 (binding idempotence), as stated, fails in its last clause. From the constructed
  agent, node 2 is bound in the map of the document and gets the identifier 1; it is unbound
  and bound again in the same map, and gets the identifier 2.
\<close>

theorem bind_lifetime_counterexample:
  "session [Bind 2 DocumentMap, Unbind page 2 DocumentMap, Bind 2 DocumentMap] InspectorDOMAgent
     = [(2, DocumentMap, 1), (2, DocumentMap, 2)]"
  by (simp add: bind_def Let_def get_def InspectorDOMAgent_def nextLong_def
      LONG_MAX_def unbind.simps unbindFrameOwner_def page_def forget_def)

text \<open>
  Claim C1 as amended. In a state whose counter is not 0, a second \<^verbatim>\<open>bind\<close> of the same
  node in the same map returns the identifier that the first call returned and changes
  nothing at all: no identifier is allocated and every map is as the first call left it.
  A node bound in a map keeps its identifier for as long as it stays bound there: over
  every sequence of calls of \<^verbatim>\<open>bind\<close>, \<^verbatim>\<open>unbind\<close> and \<^verbatim>\<open>discardBindings\<close> and of allocations
  of a map for a detached subtree, on any nodes and maps, if the node has an identifier in
  the map in every state of the sequence, then it is the same identifier in every state,
  and a \<^verbatim>\<open>bind\<close> of the node in the map in any of these states returns it and changes
  nothing. In particular one call of \<^verbatim>\<open>bind\<close>, on any node and any map, leaves the
  identifier of every bound node as it was.
\<close>

theorem bind_idempotent:
  assumes "lastNodeId s \<noteq> 0"
  shows "bind n M (snd (bind n M s)) = (fst (bind n M s), snd (bind n M s)) \<and>
         (get (nodeMaps s M') n' \<noteq> 0 \<longrightarrow>
            get (nodeMaps (snd (bind n M s)) M') n' = get (nodeMaps s M') n') \<and>
         ((\<forall>t \<in> set (states calls s). get (nodeMaps t M') n' \<noteq> 0) \<longrightarrow>
            (\<forall>t \<in> set (states calls s).
               get (nodeMaps t M') n' = get (nodeMaps s M') n' \<and>
               bind n' M' t = (get (nodeMaps s M') n', t)))"
proof -
  have a: "bind n M (snd (bind n M s)) = (fst (bind n M s), snd (bind n M s))"
    using assms by (auto simp: bind_def Let_def get_def AList.update_conv')
  have b: "get (nodeMaps s M') n' \<noteq> 0 \<longrightarrow>
            get (nodeMaps (snd (bind n M s)) M') n' = get (nodeMaps s M') n'"
    by (auto simp: bind_def Let_def get_def AList.update_conv')
  have c: "get (nodeMaps t M') n' = get (nodeMaps s M') n' \<and>
           bind n' M' t = (get (nodeMaps s M') n', t)"
    if h: "\<forall>t \<in> set (states calls s). get (nodeMaps t M') n' \<noteq> 0"
      and t: "t \<in> set (states calls s)" for t
  proof -
    have e: "get (nodeMaps t M') n' = get (nodeMaps s M') n'"
      using states_keep[OF h t] .
    have "get (nodeMaps t M') n' \<noteq> 0" using h t by blast
    then show ?thesis using bind_bound_again[of t M' n'] e by simp
  qed
  show ?thesis using a b c by blast
qed

text \<open>
  The same at a concrete input. Node 5 is bound first and gets the identifier 1. Node 2 is
  then bound, unbound and bound again, and gets 2 and then 3, while node 5 keeps 1 in every
  state, the last one included; binding node 2 once more returns 3 and changes nothing.
\<close>

theorem bind_idempotent_witness:
  "lastNodeId (snd (bind 5 DocumentMap InspectorDOMAgent)) \<noteq> 0 \<and>
   get (nodeMaps (snd (bind 5 DocumentMap InspectorDOMAgent)) DocumentMap) 5 = 1 \<and>
   get (nodeMaps (last (states rebinding (snd (bind 5 DocumentMap InspectorDOMAgent))))
          DocumentMap) 5 = 1 \<and>
   get (nodeMaps (last (states rebinding (snd (bind 5 DocumentMap InspectorDOMAgent))))
          DocumentMap) 2 = 3 \<and>
   bind 5 DocumentMap (last (states rebinding (snd (bind 5 DocumentMap InspectorDOMAgent))))
     = (1, last (states rebinding (snd (bind 5 DocumentMap InspectorDOMAgent)))) \<and>
   bind 2 DocumentMap (snd (bind 2 DocumentMap (snd (bind 5 DocumentMap InspectorDOMAgent))))
     = (2, snd (bind 2 DocumentMap (snd (bind 5 DocumentMap InspectorDOMAgent))))"
proof -
  let ?s = "snd (bind 5 DocumentMap InspectorDOMAgent)"
  have c: "lastNodeId ?s \<noteq> 0"
    by (simp add: bind_def Let_def get_def InspectorDOMAgent_def nextLong_def LONG_MAX_def)
  have b: "get (nodeMaps ?s DocumentMap) 5 = 1"
    by (simp add: bind_def Let_def get_def InspectorDOMAgent_def)
  have f: "fst (bind 2 DocumentMap ?s) = 2"
    by (simp add: bind_def Let_def get_def InspectorDOMAgent_def nextLong_def LONG_MAX_def)
  have h: "\<forall>t \<in> set (states rebinding ?s). get (nodeMaps t DocumentMap) 5 \<noteq> 0"
    by (simp add: rebinding_def bind_def Let_def get_def InspectorDOMAgent_def nextLong_def
        LONG_MAX_def unbind.simps unbindFrameOwner_def page_def forget_def)
  have g: "get (nodeMaps (last (states rebinding ?s)) DocumentMap) 2 = 3"
    by (simp add: rebinding_def bind_def Let_def get_def InspectorDOMAgent_def nextLong_def
        LONG_MAX_def unbind.simps unbindFrameOwner_def page_def forget_def)
  note a = bind_idempotent [OF c, of 2 DocumentMap DocumentMap 5 rebinding]
  have l: "get (nodeMaps (last (states rebinding ?s)) DocumentMap) 5
             = get (nodeMaps ?s DocumentMap) 5 \<and>
           bind 5 DocumentMap (last (states rebinding ?s))
             = (get (nodeMaps ?s DocumentMap) 5, last (states rebinding ?s))"
    using a[THEN conjunct2, THEN conjunct2, THEN mp, OF h, THEN bspec, OF states_last] .
  show ?thesis
    using a[THEN conjunct1] l b c f g by simp
qed

section \<open>Notifications: what is sent\<close>

declare buildObjectForNode.simps [simp del] buildArrayForContainerChildren.simps [simp del]

text \<open>
  The tree after a node has been removed from its parent: the node has no parent and no
  list of children holds it.
\<close>

definition detach :: "dom \<Rightarrow> node \<Rightarrow> dom" where
  "detach d n =
     d\<lparr> parentNode := (parentNode d)(n := None),
        childNodes := (\<lambda>p. removeAll n (childNodes d p)) \<rparr>"

text \<open>
  The agent after the document of the example page has been pushed: the nodes 0, 1, 2, 5,
  4 and 6 have the identifiers 1 to 6 and no node has had its children requested. In
  \<open>disclosed\<close> the children of the element 1 have been requested.
\<close>

definition shown :: agent where
  "shown =
     InspectorDOMAgent
       \<lparr> lastNodeId := 7,
         nodeMaps := (\<lambda>r. if r = DocumentMap
                           then [(0, 1), (1, 2), (2, 3), (5, 4), (4, 5), (6, 6)] else []),
         idToNode := (\<lambda>i. if i = 1 then Some 0 else if i = 2 then Some 1
                           else if i = 3 then Some 2 else if i = 4 then Some 5
                           else if i = 5 then Some 4 else if i = 6 then Some 6 else None),
         idToNodesMap := (\<lambda>i. if 1 \<le> i \<and> i \<le> 6 then Some DocumentMap else None),
         documents := [0, 7] \<rparr>"

definition disclosed :: agent where
  "disclosed = shown\<lparr>childrenRequested := {2}\<rparr>"

lemma mapsLe_None:
  "mapsLe s' s \<Longrightarrow> map_of (nodeMaps s M) n = None \<Longrightarrow> get (nodeMaps s' M) n = 0"
  by (auto simp: mapsLe_def map_le_def get_def dom_def split: option.splits)

lemma unbind_unbinds: "get (nodeMaps (unbind d n M s) M) n = 0"
proof -
  let ?s1 = "unbindFrameOwner d n s"
  let ?i = "get (nodeMaps ?s1 M) n"
  let ?s2 = "forget n M ?i ?s1"
  let ?s3 = "snd (innerFirstChild d n (?s2\<lparr>childrenRequested := childrenRequested ?s2 - {?i}\<rparr>))"
  have none: "map_of (nodeMaps ?s2 M) n = None" "map_of (nodeMaps ?s3 M) n = None"
    by (simp_all add: forget_def AList.delete_conv')
  have a: "get (nodeMaps ?s2 M) n = 0" using none(1) by (simp add: get_def)
  have b: "get (nodeMaps (unbindChildren d (innerChildren d n) M ?s3) M) n = 0"
    using mapsLe_None[OF unbind_mapsLe(2) none(2)] .
  show ?thesis
    using a b by (subst unbind.simps) (simp add: Let_def)
qed

lemma build_frontend:
  "frontend (snd (buildObjectForNode d n depth M s)) = frontend s"
  "frontend (snd (buildArrayForContainerChildren d c depth M s)) = frontend s"
  "frontend (snd (buildObjectsForNodes d ns depth M s)) = frontend s"
proof (induction d n depth M s and d c depth M s and d ns depth M s
    rule: buildObjectForNode_buildArrayForContainerChildren_buildObjectsForNodes.induct)
  case (1 d node depth nodesMap s)
  have b: "frontend (snd (bind node nodesMap s)) = frontend s"
    by (simp add: bind_def Let_def)
  show ?case
    using 1[OF refl refl _ refl] b
    by (subst buildObjectForNode.simps) (auto simp: Let_def innerChildNodeCount_def)
next
  case (2 d container depth nodesMap s)
  show ?case
    using 2(1)[OF _ refl _ refl] 2(2)
    by (subst buildArrayForContainerChildren.simps)
       (auto simp: Let_def innerChildNodeCount_def split: option.splits)
next
  case (3 d depth nodesMap s)
  then show ?case by simp
next
  case (4 d child rest depth nodesMap s)
  then show ?case by (simp add: Let_def)
qed

lemma build_objId:
  "objId (fst (buildObjectForNode d n depth M s)) = fst (bind n M s)"
  by (subst buildObjectForNode.simps)
     (simp add: Let_def describe_def describeContainer_def describeDocType_def)

lemma innerChildNodeCount_fst:
  "fst (innerChildNodeCount d p s) = length (innerChildren d p) mod 4294967296"
  by (simp add: innerChildNodeCount_def)

lemma innerChildNodeCount_frontend [simp]:
  "frontend (snd (innerChildNodeCount d p s)) = frontend s"
  by (simp add: innerChildNodeCount_def)

lemmas page_eval = page_def isWhitespace_def stripWhiteSpace_def isSpaceOrNewline_def
  innerChildren_def innerFirstChild_def innerChildNodeCount_def innerPreviousSibling_def
  siblingsBefore_def siblingsAfter_def firstChild_def startListening_def stopListening_def
  unbindFrameOwner_def forget_def get_def

lemmas build_eval = buildObjectForNode.simps buildArrayForContainerChildren.simps bind_def
  isContainerType_def describe_def describeContainer_def describeDocType_def
  unsignedToInt_def buildArrayForElementAttributes_def documentURLString_def nextLong_def
  LONG_MAX_def send_def

lemmas agent_eval = shown_def disclosed_def InspectorDOMAgent_def

text \<open>
  Claim C4 (insertion signal selection). For a node that is not whitespace,
  \<^verbatim>\<open>didInsertDOMNode\<close> first unbinds the node and then looks at the parent. Nothing is
  sent when the node has no parent or the parent has no identifier in the map of the
  document. Otherwise, when the parent's identifier is not among those whose children were
  requested, one \<^verbatim>\<open>childNodeCountUpdated\<close> is sent with the parent's identifier and its
  current count of visible children; and when it is, one \<^verbatim>\<open>childNodeInserted\<close> is sent
  with the parent's identifier, the identifier of the nearest preceding sibling that is not
  whitespace (0 when there is none) and the record built for the node, whose identifier is
  the counter: the node is bound afresh. The identifiers are read after the unbinding,
  which on a tree does not reach the parent or a sibling.
\<close>

theorem didInsertDOMNode_signal:
  assumes "\<not> isWhitespace d (Some n)"
  shows "(parentNode d n = None \<longrightarrow> frontend (didInsertDOMNode d n s) = frontend s) \<and>
         (parentNode d n = Some p \<longrightarrow>
            (let s1 = unbind d n DocumentMap s;
                 parentId = get (nodeMaps s1 DocumentMap) p
             in frontend (didInsertDOMNode d n s) =
                  (if parentId = 0 then frontend s
                   else if parentId \<notin> childrenRequested s1 then
                     frontend s @
                       [ChildNodeCountUpdated parentId
                          (unsignedToInt (length (innerChildren d p) mod 4294967296))]
                   else
                     frontend s @
                       [ChildNodeInserted parentId
                          (case innerPreviousSibling d n of
                             None \<Rightarrow> 0
                           | Some q \<Rightarrow> get (nodeMaps s1 DocumentMap) q)
                          (fst (buildObjectForNode d n 0 DocumentMap s1))])
                \<and> objId (fst (buildObjectForNode d n 0 DocumentMap s1)) = lastNodeId s1))"
  using assms unbind_fields(1)[of d n DocumentMap s] unbind_unbinds[of d n DocumentMap s]
  by (auto simp: didInsertDOMNode_def Let_def send_def build_frontend build_objId
      innerChildNodeCount_fst bind_result)

theorem didInsertDOMNode_signal_witness:
  "\<not> isWhitespace page (Some 4) \<and> parentNode page 4 = Some 1 \<and>
   get (nodeMaps (unbind page 4 DocumentMap disclosed) DocumentMap) 1 = 2 \<and>
   2 \<in> childrenRequested (unbind page 4 DocumentMap disclosed) \<and>
   innerPreviousSibling page 4 = Some 2 \<and>
   frontend (didInsertDOMNode page 4 disclosed) =
     [ChildNodeInserted 2 3 (NodeObject 7 1 ''DIV'' ''div'' [] (Some 0) None (Some []) None None)] \<and>
   \<not> isWhitespace page (Some 5) \<and> parentNode page 5 = Some 2 \<and>
   get (nodeMaps (unbind page 5 DocumentMap disclosed) DocumentMap) 2 = 3 \<and>
   3 \<notin> childrenRequested (unbind page 5 DocumentMap disclosed) \<and>
   frontend (didInsertDOMNode page 5 disclosed) = [ChildNodeCountUpdated 3 1] \<and>
   \<not> isWhitespace page (Some 8) \<and> parentNode page 8 = Some 7 \<and>
   get (nodeMaps (unbind page 8 DocumentMap disclosed) DocumentMap) 7 = 0 \<and>
   frontend (didInsertDOMNode page 8 disclosed) = [] \<and>
   \<not> isWhitespace page (Some 10) \<and> parentNode page 10 = None \<and>
   frontend (didInsertDOMNode page 10 disclosed) = []"
proof -
  have w: "\<not> isWhitespace page (Some 4)" "\<not> isWhitespace page (Some 5)"
    "\<not> isWhitespace page (Some 8)" "\<not> isWhitespace page (Some 10)"
    by (simp_all add: page_eval)
  have p: "parentNode page 4 = Some 1" "parentNode page 5 = Some 2"
    "parentNode page 8 = Some 7" "parentNode page 10 = None"
    by (simp_all add: page_def)
  have f: "frontend disclosed = []" by (simp add: agent_eval)
  have u4: "get (nodeMaps (unbind page 4 DocumentMap disclosed) DocumentMap) 1 = 2"
    "2 \<in> childrenRequested (unbind page 4 DocumentMap disclosed)"
    "lastNodeId (unbind page 4 DocumentMap disclosed) = 7"
    "get (nodeMaps (unbind page 4 DocumentMap disclosed) DocumentMap) 2 = 3"
    by (simp_all cong: let_weak_cong add: unbind.simps Let_def page_eval agent_eval)
  have q: "innerPreviousSibling page 4 = Some 2" by (simp add: page_eval)
  have b4: "fst (buildObjectForNode page 4 0 DocumentMap (unbind page 4 DocumentMap disclosed))
      = NodeObject 7 1 ''DIV'' ''div'' [] (Some 0) None (Some []) None None"
    by (simp cong: let_weak_cong add: unbind.simps Let_def page_eval agent_eval build_eval)
  have u5: "get (nodeMaps (unbind page 5 DocumentMap disclosed) DocumentMap) 2 = 3"
    "3 \<notin> childrenRequested (unbind page 5 DocumentMap disclosed)"
    by (simp_all cong: let_weak_cong add: unbind.simps Let_def page_eval agent_eval)
  have c5: "unsignedToInt (length (innerChildren page 2) mod 4294967296) = 1"
    by (simp add: page_eval unsignedToInt_def)
  have u8: "get (nodeMaps (unbind page 8 DocumentMap disclosed) DocumentMap) 7 = 0"
    by (simp cong: let_weak_cong add: unbind.simps Let_def page_eval agent_eval)
  from didInsertDOMNode_signal [OF w(1), where s = disclosed and p = 1]
       didInsertDOMNode_signal [OF w(2), where s = disclosed and p = 2]
       didInsertDOMNode_signal [OF w(3), where s = disclosed and p = 7]
       didInsertDOMNode_signal [OF w(4), where s = disclosed and p = 0]
       w p f u4 q b4 u5 c5 u8
  show ?thesis by (simp add: Let_def)
qed

text \<open>
  Claim C5 says that \<^verbatim>\<open>didRemoveDOMNode\<close> is invoked after the removal has taken effect
  and reports a count of 0 when the parent had exactly one visible child before. On the
  example page the text 5 is the only child of the element 2, which has the identifier 3
  and undisclosed children. After the removal the node has no parent, and the notification
  then sends nothing.
\<close>

theorem didRemoveDOMNode_after_removal_counterexample:
  "\<not> isWhitespace page (Some 5) \<and>
   parentNode page 5 = Some 2 \<and> get (nodeMaps shown DocumentMap) 2 = 3 \<and>
   3 \<notin> childrenRequested shown \<and>
   fst (innerChildNodeCount page 2 shown) = 1 \<and>
   frontend shown = [] \<and>
   frontend (didRemoveDOMNode (detach page 5) 5 shown) = []"
  by (simp add: didRemoveDOMNode_def detach_def page_eval shown_def InspectorDOMAgent_def)

text \<open>
  Claim C5 as amended. The notification reads the parent and the children of the tree as
  it is at the call, so it serves its purpose when the node is still attached. For a node
  that is not whitespace and whose parent has an identifier: with the parent's children not
  disclosed, \<^verbatim>\<open>childNodeCountUpdated\<close> with count 0 is sent exactly when the parent's
  count of visible children at the call, the node included, is 1, and nothing is sent
  otherwise; with the children disclosed, \<^verbatim>\<open>childNodeRemoved\<close> is sent with the
  identifiers that the parent and the node have before the node is unbound. In both cases
  the node is unbound afterwards. Without a parent, or with a parent that has no
  identifier, the call changes nothing.
\<close>

theorem didRemoveDOMNode_signal:
  assumes "\<not> isWhitespace d (Some n)"
  shows "(parentNode d n = None \<longrightarrow> didRemoveDOMNode d n s = s) \<and>
         (parentNode d n = Some p \<longrightarrow>
            (let parentId = get (nodeMaps s DocumentMap) p
             in (parentId = 0 \<longrightarrow> didRemoveDOMNode d n s = s) \<and>
                (parentId \<noteq> 0 \<longrightarrow>
                   frontend (didRemoveDOMNode d n s) =
                     (if parentId \<notin> childrenRequested s then
                        (if length (innerChildren d p) mod 4294967296 = 1
                         then frontend s @ [ChildNodeCountUpdated parentId 0]
                         else frontend s)
                      else
                        frontend s @
                          [ChildNodeRemoved parentId (get (nodeMaps s DocumentMap) n)])
                   \<and> get (nodeMaps (didRemoveDOMNode d n s) DocumentMap) n = 0)))"
  using assms
  by (auto simp: didRemoveDOMNode_def Let_def send_def unbind_fields unbind_unbinds
      innerChildNodeCount_fst)

theorem didRemoveDOMNode_signal_witness:
  "\<not> isWhitespace page (Some 5) \<and> parentNode page 5 = Some 2 \<and>
   get (nodeMaps shown DocumentMap) 2 = 3 \<and> 3 \<notin> childrenRequested shown \<and>
   length (innerChildren page 2) mod 4294967296 = 1 \<and>
   frontend (didRemoveDOMNode page 5 shown) = [ChildNodeCountUpdated 3 0] \<and>
   \<not> isWhitespace page (Some 4) \<and> parentNode page 4 = Some 1 \<and>
   get (nodeMaps shown DocumentMap) 1 = 2 \<and> 2 \<notin> childrenRequested shown \<and>
   length (innerChildren page 1) mod 4294967296 = 3 \<and>
   frontend (didRemoveDOMNode page 4 shown) = [] \<and>
   get (nodeMaps disclosed DocumentMap) 1 = 2 \<and> 2 \<in> childrenRequested disclosed \<and>
   get (nodeMaps disclosed DocumentMap) 4 = 5 \<and>
   frontend (didRemoveDOMNode page 4 disclosed) = [ChildNodeRemoved 2 5] \<and>
   get (nodeMaps (didRemoveDOMNode page 4 disclosed) DocumentMap) 4 = 0 \<and>
   \<not> isWhitespace page (Some 8) \<and> parentNode page 8 = Some 7 \<and>
   get (nodeMaps shown DocumentMap) 7 = 0 \<and> didRemoveDOMNode page 8 shown = shown \<and>
   \<not> isWhitespace (detach page 5) (Some 5) \<and> parentNode (detach page 5) 5 = None \<and>
   didRemoveDOMNode (detach page 5) 5 shown = shown"
proof -
  have w: "\<not> isWhitespace page (Some 5)" "\<not> isWhitespace page (Some 4)"
    "\<not> isWhitespace page (Some 8)" "\<not> isWhitespace (detach page 5) (Some 5)"
    by (simp_all add: page_eval detach_def)
  have p: "parentNode page 5 = Some 2" "parentNode page 4 = Some 1"
    "parentNode page 8 = Some 7" "parentNode (detach page 5) 5 = None"
    by (simp_all add: page_def detach_def)
  have g: "get (nodeMaps shown DocumentMap) 2 = 3" "get (nodeMaps shown DocumentMap) 1 = 2"
    "get (nodeMaps shown DocumentMap) 7 = 0" "get (nodeMaps disclosed DocumentMap) 1 = 2"
    "get (nodeMaps disclosed DocumentMap) 4 = 5"
    by (simp_all add: agent_eval get_def)
  have r: "childrenRequested shown = {}" "childrenRequested disclosed = {2}"
    "frontend shown = []" "frontend disclosed = []"
    by (simp_all add: agent_eval)
  have c: "length (innerChildren page 2) mod 4294967296 = 1"
    "length (innerChildren page 1) mod 4294967296 = 3"
    by (simp_all add: page_eval)
  from didRemoveDOMNode_signal [OF w(1), where p = 2 and s = shown]
       didRemoveDOMNode_signal [OF w(2), where p = 1 and s = shown]
       didRemoveDOMNode_signal [OF w(2), where p = 1 and s = disclosed]
       didRemoveDOMNode_signal [OF w(3), where p = 7 and s = shown]
       didRemoveDOMNode_signal [OF w(4), where p = 0 and s = shown]
       w p g r c
  show ?thesis by (simp add: Let_def)
qed

section \<open>Replacing the outer markup when the tree refuses\<close>

text \<open>
  A primitive that refuses every edit: it sets the exception code 7
  (\<^verbatim>\<open>NO_MODIFICATION_ALLOWED_ERR\<close>), leaves the tree as it is and sends no notification.
\<close>

definition refuse :: "dom \<Rightarrow> node \<Rightarrow> string \<Rightarrow> agent \<Rightarrow> int \<times> dom \<times> agent" where
  "refuse d node markup s = (7, d, s)"

lemma shown_resolves: "nodeForId shown 3 = Some 2" "isHTMLElement page 2"
  "3 \<notin> childrenRequested shown" "previousSibling page 2 = None" "parentNode page 2 = Some 1"
  "firstChild page (Suc 0) = Some 2"
  by (simp_all add: nodeForId_def agent_eval page_def previousSibling_def siblingsBefore_def
      firstChild_def)

lemma shown_push: "pushNodePathToFrontend page 2 (send m shown) = Inr (3, send m shown)"
  by (simp cong: let_weak_cong
      add: pushNodePathToFrontend_def pushDocumentToFrontend_def mainFrameDocument_def
        contains_def send_def agent_eval get_def Let_def)

text \<open>
  Claim C9 (one response when the edit is refused). The element 2 of the example page has
  the identifier 3. The call with the call identifier 11 is refused by the tree;
  \<^verbatim>\<open>setOuterHTML\<close> sends \<^verbatim>\<open>didSetOuterHTML(11, 0)\<close>, does not return, finds the unchanged
  element at the old place, and sends \<^verbatim>\<open>didSetOuterHTML(11, 3)\<close>: two responses for one call,
  the second one reporting success.
\<close>

theorem setOuterHTML_refused:
  "map_sum id (\<lambda>r. frontend (snd r)) (setOuterHTML refuse page 11 3 ''<p>'' shown) =
     Inr [DidSetOuterHTML 11 0, DidSetOuterHTML 11 3]"
  by (simp add: setOuterHTML_def shown_resolves refuse_def Let_def shown_push)
     (simp add: send_def agent_eval)

section \<open>Search results are reported once\<close>

lemma searchResults_bind [simp]: "searchResults (snd (bind n M s)) = searchResults s"
  by (simp add: bind_def Let_def)

lemma searchResults_innerFirstChild [simp]:
  "searchResults (snd (innerFirstChild d n s)) = searchResults s"
  by (simp add: innerFirstChild_def startListening_def split: option.splits)

lemma searchResults_innerChildNodeCount [simp]:
  "searchResults (snd (innerChildNodeCount d n s)) = searchResults s"
  by (simp add: innerChildNodeCount_def)

lemma searchResults_send [simp]: "searchResults (send m s) = searchResults s"
  by (simp add: send_def)

lemma build_searchResults:
  "searchResults (snd (buildObjectForNode d n depth M s)) = searchResults s"
  "searchResults (snd (buildArrayForContainerChildren d c depth M s)) = searchResults s"
  "searchResults (snd (buildObjectsForNodes d ns depth M s)) = searchResults s"
proof (induction d n depth M s and d c depth M s and d ns depth M s
    rule: buildObjectForNode_buildArrayForContainerChildren_buildObjectsForNodes.induct)
  case (1 d node depth nodesMap s)
  show ?case
    using 1[OF refl refl _ refl]
    by (subst buildObjectForNode.simps) (auto simp: Let_def)
next
  case (2 d container depth nodesMap s)
  show ?case
    using 2(1)[OF _ refl _ refl] 2(2)
    by (subst buildArrayForContainerChildren.simps) (auto simp: Let_def split: option.splits)
next
  case (3 d depth nodesMap s)
  then show ?case by simp
next
  case (4 d child rest depth nodesMap s)
  then show ?case by (simp add: Let_def)
qed

lemma searchResults_pushDocumentToFrontend [simp]:
  "searchResults (snd (pushDocumentToFrontend d s)) = searchResults s"
  by (simp add: pushDocumentToFrontend_def Let_def build_searchResults split: option.splits)

lemma searchResults_pushChildNodesToFrontend:
  "pushChildNodesToFrontend d i s = Inr s' \<Longrightarrow> searchResults s' = searchResults s"
  by (auto simp: pushChildNodesToFrontend_def Let_def build_searchResults
      split: option.splits if_splits)

lemma searchResults_pushPath:
  "pushPath d mp ns s = Inr s' \<Longrightarrow> searchResults s' = searchResults s"
proof (induction ns arbitrary: s)
  case Nil
  then show ?case by simp
next
  case (Cons n ns)
  then show ?case
    by (auto split: sum.splits dest: searchResults_pushChildNodesToFrontend)
qed

lemma searchResults_newDanglingMap [simp]:
  "searchResults (snd (newDanglingMap s)) = searchResults s"
  by (simp add: newDanglingMap_def Let_def)

lemma searchResults_pushNodePathToFrontend:
  "pushNodePathToFrontend d n s = Inr (i, s') \<Longrightarrow> searchResults s' = searchResults s"
  by (auto simp: pushNodePathToFrontend_def Let_def build_searchResults
      split: if_splits option.splits sum.splits prod.splits
      dest!: searchResults_pushPath)

lemma collectNodeIds_known:
  "set c \<subseteq> set (searchResults s) \<Longrightarrow> collectNodeIds d c ids s = Inr (ids, s)"
  by (induction c arbitrary: ids) auto

lemma collectNodeIds_grows:
  "collectNodeIds d c ids s = Inr (ids', s') \<Longrightarrow>
     set (searchResults s) \<union> set c \<subseteq> set (searchResults s')"
proof (induction c arbitrary: ids s)
  case Nil
  then show ?case by simp
next
  case (Cons n c)
  show ?case
  proof (cases "n \<in> set (searchResults s)")
    case True
    then show ?thesis using Cons by auto
  next
    case False
    then obtain i s1 where
      p: "pushNodePathToFrontend d n (s\<lparr>searchResults := searchResults s @ [n]\<rparr>) = Inr (i, s1)"
      and r: "collectNodeIds d c (ids @ [i]) s1 = Inr (ids', s')"
      using Cons.prems by (auto split: sum.splits)
    have "searchResults s1 = searchResults s @ [n]"
      using searchResults_pushNodePathToFrontend[OF p] by simp
    with Cons.IH[OF r] show ?thesis by auto
  qed
qed

lemma collectNodeIds_skip:
  "n \<in> set (searchResults s) \<Longrightarrow>
     collectNodeIds d c ids s = collectNodeIds d (removeAll n c) ids s"
proof (induction c arbitrary: ids s)
  case Nil
  then show ?case by simp
next
  case (Cons m c)
  show ?case
  proof (cases "m \<in> set (searchResults s)")
    case True
    then show ?thesis using Cons by auto
  next
    case False
    then have ne: "m \<noteq> n" using Cons.prems by auto
    have "collectNodeIds d c (ids @ [i]) s1 = collectNodeIds d (removeAll n c) (ids @ [i]) s1"
      if "pushNodePathToFrontend d m (s\<lparr>searchResults := searchResults s @ [m]\<rparr>) = Inr (i, s1)"
      for i s1
    proof -
      have "searchResults s1 = searchResults s @ [m]"
        using searchResults_pushNodePathToFrontend[OF that] by simp
      then have "n \<in> set (searchResults s1)" using Cons.prems by simp
      then show ?thesis by (rule Cons.IH)
    qed
    then show ?thesis using False ne
      by (auto split: sum.splits)
  qed
qed

lemma push_known:
  "mainFrameDocument s = Some doc \<Longrightarrow> contains (nodeMaps s DocumentMap) doc \<Longrightarrow>
   get (nodeMaps s DocumentMap) n \<noteq> 0 \<Longrightarrow>
   pushNodePathToFrontend d n s = Inr (get (nodeMaps s DocumentMap) n, s)"
  by (simp add: pushNodePathToFrontend_def pushDocumentToFrontend_def Let_def)

lemma push_shown:
  assumes "documents s = [0, 7]"
    and "nodeMaps s DocumentMap = [(0, 1), (1, 2), (2, 3), (5, 4), (4, 5), (6, 6)]"
  shows "pushNodePathToFrontend d 2 s = Inr (3, s)"
    and "pushNodePathToFrontend d 4 s = Inr (5, s)"
proof -
  have m: "mainFrameDocument s = Some 0" "contains (nodeMaps s DocumentMap) 0"
    "get (nodeMaps s DocumentMap) 2 = 3" "get (nodeMaps s DocumentMap) 4 = 5"
    using assms by (simp_all add: mainFrameDocument_def contains_def get_def)
  show "pushNodePathToFrontend d 2 s = Inr (3, s)"
    using push_known[OF m(1,2), of 2 d] m(3) by simp
  show "pushNodePathToFrontend d 4 s = Inr (5, s)"
    using push_known[OF m(1,2), of 4 d] m(4) by simp
qed

lemma shown_maps:
  "documents (shown\<lparr>searchResults := r\<rparr>) = [0, 7]"
  "nodeMaps (shown\<lparr>searchResults := r\<rparr>) DocumentMap = [(0, 1), (1, 2), (2, 3), (5, 4), (4, 5), (6, 6)]"
  "documents (shown\<lparr>matchJobsTimer := t, pendingMatchJobs := j, searchResults := r\<rparr>) = [0, 7]"
  "nodeMaps (shown\<lparr>matchJobsTimer := t, pendingMatchJobs := j, searchResults := r\<rparr>) DocumentMap
     = [(0, 1), (1, 2), (2, 3), (5, 4), (4, 5), (6, 6)]"
  by (simp_all add: agent_eval)

lemma shown_report:
  "reportNodesAsSearchResults page [2] shown =
     Inr (send (AddNodesToSearchResult [3]) (shown\<lparr>searchResults := [2]\<rparr>))"
proof -
  have s: "searchResults shown = []" by (simp add: agent_eval)
  show ?thesis
    by (simp add: reportNodesAsSearchResults_def s push_shown(1)[OF shown_maps(1,2)])
qed

lemma shown_report_again:
  "reportNodesAsSearchResults page [2, 4] (shown\<lparr>searchResults := [2]\<rparr>) =
     Inr (send (AddNodesToSearchResult [5]) (shown\<lparr>searchResults := [2, 4]\<rparr>))"
  using push_shown(2)[OF shown_maps(1,2), where d = page and r1 = "[2, 4]"]
  by (simp add: reportNodesAsSearchResults_def)

lemma strings_a:
  "find_char ''a'' CHR ''<'' = - 1" "reverseFind ''a'' CHR ''>'' = - 1"
  "escapeApostrophes ''a'' = ''a''"
  by (simp_all add: find_char_def reverseFind_def escapeApostrophes_def)

lemma page_queries:
  "isValidName page ''a''" "frameDocuments page 0 = [Some 0, Some 7]"
  by (simp_all add: page_def)

lemma jobs_a:
  "matchJobs page
     (jobsForDocument ''a'' ''a'' ''a'' ''a'' ''a'' False False (Some 0)
        @ jobsForDocument ''a'' ''a'' ''a'' ''a'' ''a'' False False (Some 7)) []
   = [2]"
  by (simp add: jobsForDocument_def MatchPlainTextJob_def matchJob_def page_def addNode_def
      apostrophe_def)

lemma search_a:
  "performSearch page ''a'' True shown = Inr (send (AddNodesToSearchResult [3]) shown)"
proof -
  have m: "mainFrameDocument (searchCanceled shown) = Some 0"
    by (simp add: mainFrameDocument_def searchCanceled_def agent_eval)
  have p: "pendingMatchJobs (searchCanceled shown) = []" "searchResults (searchCanceled shown) = []"
    by (simp_all add: searchCanceled_def)
  let ?jobs = "jobsForDocument ''a'' ''a'' ''a'' ''a'' ''a'' False False (Some 0)
        @ jobsForDocument ''a'' ''a'' ''a'' ''a'' ''a'' False False (Some 7)"
  have r: "reportNodesAsSearchResults page [2] (searchCanceled shown\<lparr>pendingMatchJobs := ?jobs\<rparr>)
     = Inr (send (AddNodesToSearchResult [3])
         (shown\<lparr>matchJobsTimer := None, pendingMatchJobs := ?jobs, searchResults := [2]\<rparr>))"
    using push_shown(1)[OF shown_maps(3,4), where d = page and t1 = None and j1 = ?jobs and r1 = "[2]"]
    by (simp add: reportNodesAsSearchResults_def searchCanceled_def)
  have c: "searchCanceled (send (AddNodesToSearchResult [3])
         (shown\<lparr>matchJobsTimer := None, pendingMatchJobs := ?jobs, searchResults := [2]\<rparr>))
      = send (AddNodesToSearchResult [3]) shown"
    by (simp add: searchCanceled_def send_def agent_eval)
  show ?thesis
    by (simp add: performSearch_def strings_a page_queries Let_def m p jobs_a r c)
qed

text \<open>
  Claim C7 (search de-duplication). A node of \<^verbatim>\<open>m_searchResults\<close> is skipped by
  \<^verbatim>\<open>reportNodesAsSearchResults\<close>: the report is the same as for the collector without
  the node. When a report returns, every node of its collector is in \<^verbatim>\<open>m_searchResults\<close>,
  so that a later report of the same collector, from whatever job, sends an empty list.
  \<^verbatim>\<open>searchCanceled\<close> empties the pending jobs and \<^verbatim>\<open>m_searchResults\<close> and stops the
  timer, and changes nothing in an idle agent. After \<^verbatim>\<open>performSearch\<close> has returned
  \<^verbatim>\<open>m_searchResults\<close> is empty, and after \<^verbatim>\<open>searchCanceled\<close> a report of a node pushes
  that node again and sends its identifier.
\<close>

theorem search_deduplication:
  "(n \<in> set (searchResults s) \<longrightarrow>
      reportNodesAsSearchResults d resultCollector s =
        reportNodesAsSearchResults d (removeAll n resultCollector) s) \<and>
   (reportNodesAsSearchResults d resultCollector s = Inr s' \<longrightarrow>
      set resultCollector \<subseteq> set (searchResults s') \<and>
      reportNodesAsSearchResults d resultCollector s' =
        Inr (send (AddNodesToSearchResult []) s')) \<and>
   pendingMatchJobs (searchCanceled s) = [] \<and>
   searchResults (searchCanceled s) = [] \<and>
   matchJobsTimer (searchCanceled s) = None \<and>
   (matchJobsTimer s = None \<and> pendingMatchJobs s = [] \<and> searchResults s = [] \<longrightarrow>
      searchCanceled s = s) \<and>
   (performSearch d query synchronously s = Inr s' \<longrightarrow> searchResults s' = []) \<and>
   reportNodesAsSearchResults d [n] (searchCanceled s) =
     (case pushNodePathToFrontend d n ((searchCanceled s)\<lparr>searchResults := [n]\<rparr>) of
        Inl e \<Rightarrow> Inl e
      | Inr (i, s1) \<Rightarrow> Inr (send (AddNodesToSearchResult [i]) s1))"
proof -
  have a: "reportNodesAsSearchResults d resultCollector s =
        reportNodesAsSearchResults d (removeAll n resultCollector) s"
    if "n \<in> set (searchResults s)"
    using collectNodeIds_skip[OF that] by (simp add: reportNodesAsSearchResults_def)
  have b: "set resultCollector \<subseteq> set (searchResults s') \<and>
      reportNodesAsSearchResults d resultCollector s' =
        Inr (send (AddNodesToSearchResult []) s')"
    if r: "reportNodesAsSearchResults d resultCollector s = Inr s'"
  proof -
    from r obtain ids s1 where c: "collectNodeIds d resultCollector [] s = Inr (ids, s1)"
      and s': "s' = send (AddNodesToSearchResult ids) s1"
      by (auto simp: reportNodesAsSearchResults_def split: sum.splits)
    have sub: "set resultCollector \<subseteq> set (searchResults s')"
      using collectNodeIds_grows[OF c] s' by simp
    then show ?thesis
      by (simp add: reportNodesAsSearchResults_def collectNodeIds_known)
  qed
  have c: "searchCanceled s = s"
    if "matchJobsTimer s = None \<and> pendingMatchJobs s = [] \<and> searchResults s = []"
    using that by (simp add: searchCanceled_def)
  have e: "searchResults s' = []" if "performSearch d query synchronously s = Inr s'"
    using that
    by (auto simp: performSearch_def Let_def searchCanceled_def
        split: option.splits if_splits sum.splits)
  have f: "reportNodesAsSearchResults d [n] (searchCanceled s) =
     (case pushNodePathToFrontend d n ((searchCanceled s)\<lparr>searchResults := [n]\<rparr>) of
        Inl e \<Rightarrow> Inl e
      | Inr (i, s1) \<Rightarrow> Inr (send (AddNodesToSearchResult [i]) s1))"
    by (simp add: reportNodesAsSearchResults_def searchCanceled_def split: sum.splits)
  show ?thesis using a b c e f by (simp add: searchCanceled_def)
qed

theorem search_deduplication_witness:
  "2 \<in> set (searchResults (shown\<lparr>searchResults := [2]\<rparr>)) \<and>
   reportNodesAsSearchResults page [2, 4] (shown\<lparr>searchResults := [2]\<rparr>) =
     Inr (send (AddNodesToSearchResult [5]) (shown\<lparr>searchResults := [2, 4]\<rparr>)) \<and>
   reportNodesAsSearchResults page (removeAll 2 [2, 4]) (shown\<lparr>searchResults := [2]\<rparr>) =
     Inr (send (AddNodesToSearchResult [5]) (shown\<lparr>searchResults := [2, 4]\<rparr>)) \<and>
   reportNodesAsSearchResults page [2] shown =
     Inr (send (AddNodesToSearchResult [3]) (shown\<lparr>searchResults := [2]\<rparr>)) \<and>
   reportNodesAsSearchResults page [2]
       (send (AddNodesToSearchResult [3]) (shown\<lparr>searchResults := [2]\<rparr>)) =
     Inr (send (AddNodesToSearchResult [])
            (send (AddNodesToSearchResult [3]) (shown\<lparr>searchResults := [2]\<rparr>))) \<and>
   matchJobsTimer shown = None \<and> pendingMatchJobs shown = [] \<and> searchResults shown = [] \<and>
   searchCanceled shown = shown \<and>
   performSearch page ''a'' True shown = Inr (send (AddNodesToSearchResult [3]) shown) \<and>
   searchResults (send (AddNodesToSearchResult [3]) shown) = []"
proof -
  have i: "matchJobsTimer shown = None \<and> pendingMatchJobs shown = [] \<and> searchResults shown = []"
    by (simp add: agent_eval)
  have m: "2 \<in> set (searchResults (shown\<lparr>searchResults := [2]\<rparr>))" by simp
  note a = search_deduplication [where n = 2 and s = "shown\<lparr>searchResults := [2]\<rparr>"
         and d = page and resultCollector = "[2, 4]"]
  note b = search_deduplication [where s = shown and d = page and resultCollector = "[2]"
         and s' = "send (AddNodesToSearchResult [3]) (shown\<lparr>searchResults := [2]\<rparr>)"]
  note c = search_deduplication [where s = shown and d = page and query = "''a''"
         and synchronously = True and s' = "send (AddNodesToSearchResult [3]) shown"]
  have 1: "reportNodesAsSearchResults page (removeAll 2 [2, 4]) (shown\<lparr>searchResults := [2]\<rparr>) =
     Inr (send (AddNodesToSearchResult [5]) (shown\<lparr>searchResults := [2, 4]\<rparr>))"
    using a [THEN conjunct1, rule_format, OF m] shown_report_again by metis
  have 2: "reportNodesAsSearchResults page [2]
       (send (AddNodesToSearchResult [3]) (shown\<lparr>searchResults := [2]\<rparr>)) =
     Inr (send (AddNodesToSearchResult [])
            (send (AddNodesToSearchResult [3]) (shown\<lparr>searchResults := [2]\<rparr>)))"
    using b [THEN conjunct2, THEN conjunct1, rule_format, OF shown_report] by blast
  have 3: "searchCanceled shown = shown"
    using c [THEN conjunct2, THEN conjunct2, THEN conjunct2, THEN conjunct2, THEN conjunct2,
        THEN conjunct1, rule_format, OF i] .
  have 4: "searchResults (send (AddNodesToSearchResult [3]) shown) = []"
    using c [THEN conjunct2, THEN conjunct2, THEN conjunct2, THEN conjunct2, THEN conjunct2,
        THEN conjunct2, THEN conjunct1, rule_format, OF search_a] .
  show ?thesis
    using m shown_report_again 1 shown_report 2 i 3 search_a 4 by blast
qed

section \<open>Unbinding a disclosed subtree\<close>

text \<open>
  The nodes that \<^verbatim>\<open>unbind(P, M)\<close> visits, read off the state before the call: \<open>P\<close>
  itself, and every node of the visible-child traversal of a visited node that is bound in
  \<open>M\<close> with an identifier whose children were requested.
\<close>

inductive reaches :: "dom \<Rightarrow> agent \<Rightarrow> mapRef \<Rightarrow> node \<Rightarrow> node \<Rightarrow> bool"
  for d :: dom and s :: agent and M :: mapRef and P :: node
where
  start: "reaches d s M P P"
| step: "reaches d s M P x \<Longrightarrow> get (nodeMaps s M) x \<noteq> 0 \<Longrightarrow>
         get (nodeMaps s M) x \<in> childrenRequested s \<Longrightarrow> c \<in> set (innerChildren d x) \<Longrightarrow>
         reaches d s M P c"

text \<open>No identifier other than 0 is stored for two nodes of one map.\<close>

definition distinctIds :: "nodeToIdMap \<Rightarrow> bool" where
  "distinctIds m = (\<forall>x y. get m x \<noteq> 0 \<and> get m x = get m y \<longrightarrow> x = y)"

text \<open>
  Two relations between the state before and after: \<open>shrinks\<close> says that bindings,
  index entries and disclosure flags are only removed; \<open>cleared\<close> adds that a flag goes
  only with its node, that a node that lost its binding lost its index entry and its flag,
  and that a disclosed node that lost its binding took its visible children along.
\<close>

definition shrinks :: "agent \<Rightarrow> agent \<Rightarrow> bool" where
  "shrinks s' s =
     (mapsLe s' s \<and> childrenRequested s' \<subseteq> childrenRequested s \<and>
      (\<forall>i. idToNode s' i = None \<or> idToNode s' i = idToNode s i))"

definition cleared :: "dom \<Rightarrow> mapRef \<Rightarrow> agent \<Rightarrow> agent \<Rightarrow> bool" where
  "cleared d M s s' =
     (shrinks s' s \<and>
      (\<forall>i. i \<in> childrenRequested s \<and> i \<notin> childrenRequested s' \<longrightarrow>
           (\<exists>y. get (nodeMaps s M) y = i \<and> i \<noteq> 0 \<and> get (nodeMaps s' M) y = 0)) \<and>
      (\<forall>x. get (nodeMaps s M) x \<noteq> 0 \<and> get (nodeMaps s' M) x = 0 \<longrightarrow>
           idToNode s' (get (nodeMaps s M) x) = None \<and>
           get (nodeMaps s M) x \<notin> childrenRequested s') \<and>
      (\<forall>x. get (nodeMaps s M) x \<noteq> 0 \<and> get (nodeMaps s M) x \<in> childrenRequested s \<and>
           get (nodeMaps s' M) x = 0 \<longrightarrow>
           (\<forall>c \<in> set (innerChildren d x). get (nodeMaps s' M) c = 0)))"

lemma shrinks_refl [simp]: "shrinks s s"
  by (simp add: shrinks_def)

lemma shrinks_trans: "shrinks s2 s1 \<Longrightarrow> shrinks s1 s \<Longrightarrow> shrinks s2 s"
  unfolding shrinks_def by (metis mapsLe_trans subset_trans)

lemma shrinks_get:
  "shrinks s' s \<Longrightarrow> get (nodeMaps s' M) x \<noteq> 0 \<Longrightarrow> get (nodeMaps s' M) x = get (nodeMaps s M) x"
  by (auto simp: shrinks_def get_def split: option.splits dest: mapsLe_Some)

lemma shrinks_unbound:
  "shrinks s' s \<Longrightarrow> get (nodeMaps s M) x = 0 \<Longrightarrow> get (nodeMaps s' M) x = 0"
  using shrinks_get by fastforce

lemma shrinks_requested:
  "shrinks s' s \<Longrightarrow> i \<notin> childrenRequested s \<Longrightarrow> i \<notin> childrenRequested s'"
  by (auto simp: shrinks_def)

lemma shrinks_index:
  "shrinks s' s \<Longrightarrow> idToNode s i = None \<Longrightarrow> idToNode s' i = None"
  by (auto simp: shrinks_def)

lemma distinctIds_shrinks:
  "shrinks s' s \<Longrightarrow> distinctIds (nodeMaps s M) \<Longrightarrow> distinctIds (nodeMaps s' M)"
  unfolding distinctIds_def by (metis shrinks_get)

lemma cleared_refl: "cleared d M s s"
  by (simp add: cleared_def)

lemma cleared_same:
  "nodeMaps s' = nodeMaps s \<Longrightarrow> childrenRequested s' = childrenRequested s \<Longrightarrow>
   idToNode s' = idToNode s \<Longrightarrow> cleared d M s s'"
  by (simp add: cleared_def shrinks_def mapsLe_def)

lemma cleared_trans:
  assumes "cleared d M s s1" "cleared d M s1 s2" "distinctIds (nodeMaps s M)"
  shows "cleared d M s s2"
proof -
  have sh1: "shrinks s1 s" and sh2: "shrinks s2 s1"
    using assms(1,2) by (simp_all add: cleared_def)
  have sh: "shrinks s2 s" using sh2 sh1 by (rule shrinks_trans)
  have f4: "\<exists>y. get (nodeMaps s M) y = i \<and> i \<noteq> 0 \<and> get (nodeMaps s2 M) y = 0"
    if h: "i \<in> childrenRequested s" "i \<notin> childrenRequested s2" for i
  proof (cases "i \<in> childrenRequested s1")
    case True
    then obtain y where "get (nodeMaps s1 M) y = i" "i \<noteq> 0" "get (nodeMaps s2 M) y = 0"
      using assms(2) h(2) unfolding cleared_def by blast
    then show ?thesis using shrinks_get[OF sh1, of M y] by auto
  next
    case False
    then obtain y where "get (nodeMaps s M) y = i" "i \<noteq> 0" "get (nodeMaps s1 M) y = 0"
      using assms(1) h(1) unfolding cleared_def by blast
    then show ?thesis using shrinks_unbound[OF sh2, of M y] by auto
  qed
  have f6: "idToNode s2 (get (nodeMaps s M) x) = None \<and> get (nodeMaps s M) x \<notin> childrenRequested s2"
    if h: "get (nodeMaps s M) x \<noteq> 0" "get (nodeMaps s2 M) x = 0" for x
  proof (cases "get (nodeMaps s1 M) x = 0")
    case True
    then have "idToNode s1 (get (nodeMaps s M) x) = None"
      "get (nodeMaps s M) x \<notin> childrenRequested s1"
      using assms(1) h(1) unfolding cleared_def by blast+
    then show ?thesis using shrinks_index[OF sh2] shrinks_requested[OF sh2] by blast
  next
    case False
    then have "get (nodeMaps s1 M) x = get (nodeMaps s M) x"
      using shrinks_get[OF sh1] by blast
    then show ?thesis using assms(2) False h(2) unfolding cleared_def by metis
  qed
  have post: "get (nodeMaps s2 M) c = 0"
    if h: "get (nodeMaps s M) x \<noteq> 0" "get (nodeMaps s M) x \<in> childrenRequested s"
       "get (nodeMaps s2 M) x = 0" "c \<in> set (innerChildren d x)" for x c
  proof (cases "get (nodeMaps s1 M) x = 0")
    case True
    then have "get (nodeMaps s1 M) c = 0"
      using assms(1) h(1,2,4) unfolding cleared_def by blast
    then show ?thesis using shrinks_unbound[OF sh2] by blast
  next
    case False
    then have e: "get (nodeMaps s1 M) x = get (nodeMaps s M) x"
      using shrinks_get[OF sh1] by blast
    have "get (nodeMaps s M) x \<in> childrenRequested s1"
    proof (rule ccontr)
      assume "get (nodeMaps s M) x \<notin> childrenRequested s1"
      then obtain y where y: "get (nodeMaps s M) y = get (nodeMaps s M) x"
        "get (nodeMaps s1 M) y = 0"
        using assms(1) h(2) unfolding cleared_def by blast
      then have "x = y" using assms(3) h(1) unfolding distinctIds_def by metis
      then show False using y(2) False by simp
    qed
    then show ?thesis
      using assms(2) e False h(3,4) unfolding cleared_def by metis
  qed
  show ?thesis
    unfolding cleared_def using sh f4 f6 post by blast
qed

lemma clearedI:
  assumes "shrinks s' s"
    and "\<And>i. i \<in> childrenRequested s \<Longrightarrow> i \<notin> childrenRequested s' \<Longrightarrow>
           \<exists>y. get (nodeMaps s M) y = i \<and> i \<noteq> 0 \<and> get (nodeMaps s' M) y = 0"
    and "\<And>x. get (nodeMaps s M) x \<noteq> 0 \<Longrightarrow> get (nodeMaps s' M) x = 0 \<Longrightarrow>
           idToNode s' (get (nodeMaps s M) x) = None \<and>
           get (nodeMaps s M) x \<notin> childrenRequested s'"
    and "\<And>x c. get (nodeMaps s M) x \<noteq> 0 \<Longrightarrow>
           get (nodeMaps s M) x \<in> childrenRequested s \<Longrightarrow>
           get (nodeMaps s' M) x = 0 \<Longrightarrow> c \<in> set (innerChildren d x) \<Longrightarrow>
           get (nodeMaps s' M) c = 0"
  shows "cleared d M s s'"
  unfolding cleared_def using assms by blast

lemma cleared_flag:
  "cleared d M s s' \<Longrightarrow> i \<in> childrenRequested s \<Longrightarrow> i \<notin> childrenRequested s' \<Longrightarrow>
     \<exists>y. get (nodeMaps s M) y = i \<and> i \<noteq> 0 \<and> get (nodeMaps s' M) y = 0"
  unfolding cleared_def by blast

lemma cleared_index:
  "cleared d M s s' \<Longrightarrow> get (nodeMaps s M) x \<noteq> 0 \<Longrightarrow> get (nodeMaps s' M) x = 0 \<Longrightarrow>
     idToNode s' (get (nodeMaps s M) x) = None \<and> get (nodeMaps s M) x \<notin> childrenRequested s'"
  unfolding cleared_def by blast

lemma cleared_kids:
  "cleared d M s s' \<Longrightarrow> get (nodeMaps s M) x \<noteq> 0 \<Longrightarrow>
     get (nodeMaps s M) x \<in> childrenRequested s \<Longrightarrow> get (nodeMaps s' M) x = 0 \<Longrightarrow>
     c \<in> set (innerChildren d x) \<Longrightarrow> get (nodeMaps s' M) c = 0"
  unfolding cleared_def by blast

lemma get_delete: "get (AList.delete n m) x = (if x = n then 0 else get m x)"
  by (simp add: get_def AList.delete_conv')

text \<open>The state in which \<^verbatim>\<open>unbind\<close> goes on to the children of a bound node.\<close>

definition dropped :: "dom \<Rightarrow> node \<Rightarrow> mapRef \<Rightarrow> agent \<Rightarrow> agent" where
  "dropped d n M s =
     (let s1 = unbindFrameOwner d n s;
          s2 = forget n M (get (nodeMaps s1 M) n) s1
      in snd (innerFirstChild d n
           (s2\<lparr>childrenRequested := childrenRequested s2 - {get (nodeMaps s1 M) n}\<rparr>)))"

lemma dropped_fields:
  "get (nodeMaps (dropped d n M s) M) x = (if x = n then 0 else get (nodeMaps s M) x)"
  "childrenRequested (dropped d n M s) = childrenRequested s - {get (nodeMaps s M) n}"
  "idToNode (dropped d n M s) = (idToNode s)(get (nodeMaps s M) n := None)"
  "M' \<noteq> M \<Longrightarrow> nodeMaps (dropped d n M s) M' = nodeMaps s M'"
  by (simp_all add: dropped_def Let_def forget_def get_delete)

lemma forget_fields:
  "get (nodeMaps (forget n M i s) M) x = (if x = n then 0 else get (nodeMaps s M) x)"
  "childrenRequested (forget n M i s) = childrenRequested s"
  "idToNode (forget n M i s) = (idToNode s)(i := None)"
  "M' \<noteq> M \<Longrightarrow> nodeMaps (forget n M i s) M' = nodeMaps s M'"
  by (simp_all add: forget_def get_delete)

lemma shrinks_dropped: "shrinks (dropped d n M s) s"
  by (auto simp: shrinks_def dropped_def Let_def mapsLe_def forget_def AList.delete_conv'
      map_le_def)

lemma shrinks_forget: "shrinks (forget n M i (unbindFrameOwner d n s)) s"
  by (auto simp: shrinks_def mapsLe_def forget_def AList.delete_conv' map_le_def)

lemma unbind_cases:
  "unbind d n M s =
     (if get (nodeMaps s M) n = 0 then unbindFrameOwner d n s
      else if get (nodeMaps s M) n \<in> childrenRequested s
      then unbindChildren d (innerChildren d n) M (dropped d n M s)
      else forget n M (get (nodeMaps s M) n) (unbindFrameOwner d n s))"
  by (subst unbind.simps) (simp add: Let_def dropped_def forget_def)

lemma cleared_forget:
  assumes "get (nodeMaps s M) n \<notin> childrenRequested s"
  shows "cleared d M s (forget n M (get (nodeMaps s M) n) (unbindFrameOwner d n s))"
proof (rule clearedI)
  show "shrinks (forget n M (get (nodeMaps s M) n) (unbindFrameOwner d n s)) s"
    by (rule shrinks_forget)
qed (use assms in \<open>auto simp: forget_fields split: if_splits\<close>)

lemma distinctIds_invariant: "idsBelow s \<Longrightarrow> idsDistinct s \<Longrightarrow> distinctIds (nodeMaps s M)"
proof -
  assume b: "idsBelow s" and dis: "idsDistinct s"
  have "x = y" if h: "get (nodeMaps s M) x \<noteq> 0" "get (nodeMaps s M) x = get (nodeMaps s M) y"
    for x y
  proof -
    obtain i where i: "map_of (nodeMaps s M) x = Some i" "map_of (nodeMaps s M) y = Some i"
      using h by (auto simp: get_def split: option.splits)
    with dis show ?thesis unfolding idsDistinct_def by blast
  qed
  then show ?thesis unfolding distinctIds_def by blast
qed

lemma cleared_dropped:
  assumes i: "get (nodeMaps s M) n \<noteq> 0" "get (nodeMaps s M) n \<in> childrenRequested s"
    and dist: "distinctIds (nodeMaps s M)"
    and rest: "cleared d M (dropped d n M s) s'"
    and kids: "\<forall>c \<in> set (innerChildren d n). get (nodeMaps s' M) c = 0"
  shows "cleared d M s s'"
proof -
  let ?s3 = "dropped d n M s"
  let ?i = "get (nodeMaps s M) n"
  have sh3: "shrinks s' ?s3" using rest by (simp add: cleared_def)
  have sh: "shrinks s' s" using sh3 shrinks_dropped by (rule shrinks_trans)
  have n0: "get (nodeMaps s' M) n = 0"
    using shrinks_unbound[OF sh3, of M n] by (simp add: dropped_fields)
  have other: "get (nodeMaps ?s3 M) x = get (nodeMaps s M) x" if "x \<noteq> n" for x
    using that by (simp add: dropped_fields)
  have f4: "\<exists>y. get (nodeMaps s M) y = j \<and> j \<noteq> 0 \<and> get (nodeMaps s' M) y = 0"
    if h: "j \<in> childrenRequested s" "j \<notin> childrenRequested s'" for j
  proof (cases "j = ?i")
    case True
    then show ?thesis using i(1) n0 by blast
  next
    case False
    then have "j \<in> childrenRequested ?s3" using h(1) by (simp add: dropped_fields)
    then obtain y where y: "get (nodeMaps ?s3 M) y = j" "j \<noteq> 0" "get (nodeMaps s' M) y = 0"
      using cleared_flag[OF rest _ h(2)] by blast
    then have "get (nodeMaps s M) y = j" by (auto simp: dropped_fields split: if_splits)
    then show ?thesis using y by blast
  qed
  have f6: "idToNode s' (get (nodeMaps s M) x) = None \<and> get (nodeMaps s M) x \<notin> childrenRequested s'"
    if h: "get (nodeMaps s M) x \<noteq> 0" "get (nodeMaps s' M) x = 0" for x
  proof (cases "x = n")
    case True
    have a: "idToNode ?s3 ?i = None" and b: "?i \<notin> childrenRequested ?s3"
      by (simp_all add: dropped_fields)
    from shrinks_index[OF sh3 a] shrinks_requested[OF sh3 b] True
    show ?thesis by simp
  next
    case False
    have e: "get (nodeMaps ?s3 M) x = get (nodeMaps s M) x" by (rule other[OF False])
    have "get (nodeMaps ?s3 M) x \<noteq> 0" unfolding e by (rule h(1))
    from cleared_index[OF rest this h(2)] show ?thesis unfolding e .
  qed
  have post: "get (nodeMaps s' M) c = 0"
    if h: "get (nodeMaps s M) x \<noteq> 0" "get (nodeMaps s M) x \<in> childrenRequested s"
       "get (nodeMaps s' M) x = 0" "c \<in> set (innerChildren d x)" for x c
  proof (cases "x = n")
    case True
    then show ?thesis using kids h(4) by blast
  next
    case False
    have e: "get (nodeMaps ?s3 M) x = get (nodeMaps s M) x" by (rule other[OF False])
    have ne: "get (nodeMaps s M) x \<noteq> ?i"
    proof
      assume "get (nodeMaps s M) x = ?i"
      with dist h(1) have "x = n" unfolding distinctIds_def by blast
      with False show False by simp
    qed
    have b: "get (nodeMaps ?s3 M) x \<noteq> 0" unfolding e by (rule h(1))
    have r: "get (nodeMaps ?s3 M) x \<in> childrenRequested ?s3"
      using h(2) ne by (simp add: e dropped_fields(2))
    from cleared_kids[OF rest b r h(3,4)] show ?thesis .
  qed
  show ?thesis
    using sh f4 f6 post by (rule clearedI)
qed

lemma cleared_shrinks: "cleared d M s s' \<Longrightarrow> shrinks s' s"
  by (simp add: cleared_def)

lemma unbind_cleared:
  "distinctIds (nodeMaps s M) \<Longrightarrow> cleared d M s (unbind d n M s)"
  "distinctIds (nodeMaps s M) \<Longrightarrow>
     cleared d M s (unbindChildren d cs M s) \<and>
     (\<forall>c \<in> set cs. get (nodeMaps (unbindChildren d cs M s) M) c = 0)"
proof (induction d n M s and d cs M s rule: unbind_unbindChildren.induct)
  case (1 d node nodesMap s)
  let ?i = "get (nodeMaps s nodesMap) node"
  show ?case
  proof (cases "?i = 0")
    case True
    then show ?thesis
      by (simp add: unbind_cases cleared_same)
  next
    case False
    show ?thesis
    proof (cases "?i \<in> childrenRequested s")
      case True
      have d3: "distinctIds (nodeMaps (dropped d node nodesMap s) nodesMap)"
        using shrinks_dropped "1.prems" by (rule distinctIds_shrinks)
      have "cleared d nodesMap (dropped d node nodesMap s)
              (unbindChildren d (innerChildren d node) nodesMap (dropped d node nodesMap s)) \<and>
            (\<forall>c \<in> set (innerChildren d node).
               get (nodeMaps (unbindChildren d (innerChildren d node) nodesMap
                      (dropped d node nodesMap s)) nodesMap) c = 0)"
        using "1.IH"[OF refl refl _ refl] False True d3
        by (simp add: dropped_def Let_def forget_def)
      then show ?thesis
        using cleared_dropped[OF False True "1.prems"] False True
        by (simp add: unbind_cases)
    next
      case notreq: False
      then show ?thesis using False cleared_forget[OF notreq]
        by (simp add: unbind_cases)
    qed
  qed
next
  case (2 d nodesMap s)
  then show ?case by (simp add: cleared_refl)
next
  case (3 d child rest nodesMap s)
  let ?s1 = "unbind d child nodesMap s"
  let ?s2 = "unbindChildren d rest nodesMap ?s1"
  have c1: "cleared d nodesMap s ?s1" using "3.IH"(1) "3.prems" by blast
  have d1: "distinctIds (nodeMaps ?s1 nodesMap)"
    using cleared_shrinks[OF c1] "3.prems" by (rule distinctIds_shrinks)
  have c2: "cleared d nodesMap ?s1 ?s2"
    and k2: "\<forall>c \<in> set rest. get (nodeMaps ?s2 nodesMap) c = 0"
    using "3.IH"(2)[OF d1] by blast+
  have "get (nodeMaps ?s2 nodesMap) child = 0"
    using shrinks_unbound[OF cleared_shrinks[OF c2]] unbind_unbinds by blast
  then show ?case
    using cleared_trans[OF c1 c2 "3.prems"] k2 by simp
qed

lemma reaches_unbound:
  assumes "reaches d s M P x" "distinctIds (nodeMaps s M)"
  shows "get (nodeMaps (unbind d P M s) M) x = 0"
  using assms
proof (induction rule: reaches.induct)
  case start
  then show ?case by (simp add: unbind_unbinds)
next
  case (step x c)
  then show ?case
    using cleared_kids[OF unbind_cleared(1)[OF step.prems, of d P], of x c] by simp
qed

text \<open>What changes between two states is confined to a set of nodes and their identifiers.\<close>

definition onlyAt :: "mapRef \<Rightarrow> agent \<Rightarrow> agent \<Rightarrow> node set \<Rightarrow> bool" where
  "onlyAt M s s' R =
     ((\<forall>x. x \<notin> R \<longrightarrow> map_of (nodeMaps s' M) x = map_of (nodeMaps s M) x) \<and>
      (\<forall>i. i = 0 \<or> (\<forall>x \<in> R. get (nodeMaps s M) x \<noteq> i) \<longrightarrow>
           idToNode s' i = idToNode s i \<and>
           (i \<in> childrenRequested s' \<longleftrightarrow> i \<in> childrenRequested s)) \<and>
      (\<forall>M'. M' \<noteq> M \<longrightarrow> nodeMaps s' M' = nodeMaps s M'))"

lemma onlyAt_mono: "onlyAt M s s' R \<Longrightarrow> R \<subseteq> R' \<Longrightarrow> onlyAt M s s' R'"
  unfolding onlyAt_def by blast

lemma onlyAt_same:
  "nodeMaps s' = nodeMaps s \<Longrightarrow> childrenRequested s' = childrenRequested s \<Longrightarrow>
   idToNode s' = idToNode s \<Longrightarrow> onlyAt M s s' R"
  by (simp add: onlyAt_def)

lemma onlyAt_map:
  "onlyAt M s s' R \<Longrightarrow> x \<notin> R \<Longrightarrow> map_of (nodeMaps s' M) x = map_of (nodeMaps s M) x"
  by (simp add: onlyAt_def)

lemma onlyAt_other: "onlyAt M s s' R \<Longrightarrow> M' \<noteq> M \<Longrightarrow> nodeMaps s' M' = nodeMaps s M'"
  by (simp add: onlyAt_def)

lemma onlyAt_id:
  "onlyAt M s s' R \<Longrightarrow> i = 0 \<or> (\<forall>x \<in> R. get (nodeMaps s M) x \<noteq> i) \<Longrightarrow>
     idToNode s' i = idToNode s i \<and> (i \<in> childrenRequested s' \<longleftrightarrow> i \<in> childrenRequested s)"
  unfolding onlyAt_def by blast

lemma onlyAt_trans:
  assumes a: "onlyAt M s s1 R1" and b: "onlyAt M s1 s2 R2" and sh: "shrinks s1 s"
  shows "onlyAt M s s2 (R1 \<union> R2)"
proof -
  have m: "map_of (nodeMaps s2 M) x = map_of (nodeMaps s M) x" if "x \<notin> R1 \<union> R2" for x
    using onlyAt_map[OF a, of x] onlyAt_map[OF b, of x] that by simp
  have o: "nodeMaps s2 M' = nodeMaps s M'" if "M' \<noteq> M" for M'
    using onlyAt_other[OF a that] onlyAt_other[OF b that] by simp
  have i: "idToNode s2 i = idToNode s i \<and> (i \<in> childrenRequested s2 \<longleftrightarrow> i \<in> childrenRequested s)"
    if h: "i = 0 \<or> (\<forall>x \<in> R1 \<union> R2. get (nodeMaps s M) x \<noteq> i)" for i
  proof -
    have 1: "i = 0 \<or> (\<forall>x \<in> R1. get (nodeMaps s M) x \<noteq> i)" using h by blast
    have 2: "i = 0 \<or> (\<forall>x \<in> R2. get (nodeMaps s1 M) x \<noteq> i)"
    proof (cases "i = 0")
      case True
      then show ?thesis by simp
    next
      case False
      have "get (nodeMaps s1 M) x \<noteq> i" if x: "x \<in> R2" for x
      proof
        assume e: "get (nodeMaps s1 M) x = i"
        then have "get (nodeMaps s M) x = i" using shrinks_get[OF sh, of M x] False by simp
        then show False using h False x by blast
      qed
      then show ?thesis by blast
    qed
    from onlyAt_id[OF a 1] onlyAt_id[OF b 2] show ?thesis by simp
  qed
  show ?thesis unfolding onlyAt_def using m o i by blast
qed

lemma reaches_mono:
  assumes "reaches d s' M P x" "shrinks s' s"
  shows "reaches d s M P x"
  using assms(1)
proof (induction rule: reaches.induct)
  case start
  then show ?case by (rule reaches.start)
next
  case (step x c)
  have "get (nodeMaps s M) x = get (nodeMaps s' M) x"
    using shrinks_get[OF assms(2) step.hyps(2)] by simp
  moreover have "get (nodeMaps s' M) x \<in> childrenRequested s"
    using step.hyps(3) assms(2) by (auto simp: shrinks_def)
  ultimately show ?case
    using reaches.step[OF step.IH _ _ step.hyps(4)] step.hyps(2) by simp
qed

lemma reaches_trans:
  assumes "reaches d s M x y" "reaches d s M P x"
  shows "reaches d s M P y"
  using assms(1)
proof (induction rule: reaches.induct)
  case start
  then show ?case by (rule assms(2))
next
  case (step x c)
  then show ?case by (blast intro: reaches.step)
qed

lemma onlyAt_forget:
  "get (nodeMaps s M) n \<noteq> 0 \<Longrightarrow>
     onlyAt M s (forget n M (get (nodeMaps s M) n) (unbindFrameOwner d n s)) {n}"
  by (auto simp: onlyAt_def forget_def AList.delete_conv')

lemma onlyAt_dropped:
  "get (nodeMaps s M) n \<noteq> 0 \<Longrightarrow> onlyAt M s (dropped d n M s) {n}"
  by (auto simp: onlyAt_def dropped_def Let_def forget_def AList.delete_conv')

lemma unbind_shrinks:
  "shrinks (unbind d n M s) s"
  "shrinks (unbindChildren d cs M s) s"
proof (induction d n M s and d cs M s rule: unbind_unbindChildren.induct)
  case (1 d node nodesMap s)
  let ?i = "get (nodeMaps s nodesMap) node"
  show ?case
  proof (cases "?i \<noteq> 0 \<and> ?i \<in> childrenRequested s")
    case True
    have "shrinks (unbindChildren d (innerChildren d node) nodesMap (dropped d node nodesMap s))
            (dropped d node nodesMap s)"
      using "1.IH"[OF refl refl _ refl] True by (simp add: dropped_def Let_def forget_def)
    then show ?thesis
      using True shrinks_trans[OF _ shrinks_dropped] by (simp add: unbind_cases)
  next
    case False
    have "shrinks (unbindFrameOwner d node s) s"
      by (simp add: shrinks_def mapsLe_def)
    then show ?thesis
      using False shrinks_forget by (auto simp: unbind_cases)
  qed
next
  case (2 d nodesMap s)
  then show ?case by simp
next
  case (3 d child rest nodesMap s)
  then show ?case by (auto intro: shrinks_trans)
qed

lemma unbind_onlyAt:
  "onlyAt M s (unbind d n M s) {x. reaches d s M n x}"
  "onlyAt M s (unbindChildren d cs M s) {x. \<exists>c \<in> set cs. reaches d s M c x}"
proof (induction d n M s and d cs M s rule: unbind_unbindChildren.induct)
  case (1 d node nodesMap s)
  let ?i = "get (nodeMaps s nodesMap) node"
  have self: "{node} \<subseteq> {x. reaches d s nodesMap node x}"
    by (simp add: reaches.start)
  show ?case
  proof (cases "?i = 0")
    case True
    then show ?thesis by (simp add: unbind_cases onlyAt_same)
  next
    case False
    show ?thesis
    proof (cases "?i \<in> childrenRequested s")
      case True
      let ?s3 = "dropped d node nodesMap s"
      let ?kids = "innerChildren d node"
      have ih: "onlyAt nodesMap ?s3 (unbindChildren d ?kids nodesMap ?s3)
                  {x. \<exists>c \<in> set ?kids. reaches d ?s3 nodesMap c x}"
        using "1.IH"[OF refl refl _ refl] False True
        by (simp add: dropped_def Let_def forget_def)
      have sub: "{node} \<union> {x. \<exists>c \<in> set ?kids. reaches d ?s3 nodesMap c x}
                   \<subseteq> {x. reaches d s nodesMap node x}"
      proof -
        have "reaches d s nodesMap node x"
          if c: "c \<in> set ?kids" and r: "reaches d ?s3 nodesMap c x" for c x
        proof -
          have "reaches d s nodesMap node c"
            using reaches.step[OF reaches.start False True c] .
          moreover have "reaches d s nodesMap c x"
            using r shrinks_dropped by (rule reaches_mono)
          ultimately show ?thesis by (rule reaches_trans[rotated])
        qed
        then show ?thesis using self by blast
      qed
      have "onlyAt nodesMap s (unbindChildren d ?kids nodesMap ?s3)
              ({node} \<union> {x. \<exists>c \<in> set ?kids. reaches d ?s3 nodesMap c x})"
        using onlyAt_dropped[OF False] ih shrinks_dropped by (rule onlyAt_trans)
      then show ?thesis
        using sub False True by (simp add: unbind_cases onlyAt_mono)
    next
      case notreq: False
      then show ?thesis
        using False onlyAt_mono[OF onlyAt_forget[OF False] self] by (simp add: unbind_cases)
    qed
  qed
next
  case (2 d nodesMap s)
  then show ?case by (simp add: onlyAt_same)
next
  case (3 d child rest nodesMap s)
  let ?s1 = "unbind d child nodesMap s"
  have sh: "shrinks ?s1 s" by (rule unbind_shrinks)
  have sub: "{x. reaches d s nodesMap child x} \<union> {x. \<exists>c \<in> set rest. reaches d ?s1 nodesMap c x}
              \<subseteq> {x. \<exists>c \<in> set (child # rest). reaches d s nodesMap c x}"
  proof -
    have "reaches d s nodesMap c x" if "reaches d ?s1 nodesMap c x" for c x
      using that sh by (rule reaches_mono)
    then show ?thesis by auto
  qed
  have "onlyAt nodesMap s (unbindChildren d rest nodesMap ?s1)
          ({x. reaches d s nodesMap child x} \<union> {x. \<exists>c \<in> set rest. reaches d ?s1 nodesMap c x})"
    using "3.IH"(1) "3.IH"(2) sh by (rule onlyAt_trans)
  then show ?case using sub by (simp add: onlyAt_mono)
qed

text \<open>
  Claim C3 (unbind transitivity). In a state where no identifier is stored for two nodes
  of the map, as in every state that binding produces, \<^verbatim>\<open>unbind(P, M)\<close> removes from the
  map every node that it reaches through disclosed nodes by the visible-child traversal,
  \<open>P\<close> first, and removes the identifier of each from \<^verbatim>\<open>m_idToNode\<close> and from
  \<^verbatim>\<open>m_childrenRequested\<close>. Everything else is untouched: a node that is not reached, such
  as a descendant of a bound child whose own children were not requested, keeps its entry;
  an identifier of no reached node keeps its index entry and its flag; the other maps are
  as before.
\<close>

theorem unbind_transitive:
  assumes "distinctIds (nodeMaps s M)"
  shows "(reaches d s M P x \<longrightarrow>
            get (nodeMaps (unbind d P M s) M) x = 0 \<and>
            (get (nodeMaps s M) x \<noteq> 0 \<longrightarrow>
               idToNode (unbind d P M s) (get (nodeMaps s M) x) = None \<and>
               get (nodeMaps s M) x \<notin> childrenRequested (unbind d P M s))) \<and>
         (\<not> reaches d s M P x \<longrightarrow>
            map_of (nodeMaps (unbind d P M s) M) x = map_of (nodeMaps s M) x) \<and>
         ((\<forall>y. reaches d s M P y \<longrightarrow> get (nodeMaps s M) y \<noteq> i) \<longrightarrow>
            idToNode (unbind d P M s) i = idToNode s i \<and>
            (i \<in> childrenRequested (unbind d P M s) \<longleftrightarrow> i \<in> childrenRequested s)) \<and>
         (M' \<noteq> M \<longrightarrow> nodeMaps (unbind d P M s) M' = nodeMaps s M')"
proof -
  let ?s' = "unbind d P M s"
  have c: "cleared d M s ?s'" using assms by (rule unbind_cleared(1))
  have o: "onlyAt M s ?s' {x. reaches d s M P x}" by (rule unbind_onlyAt(1))
  have 1: "get (nodeMaps ?s' M) x = 0 \<and>
            (get (nodeMaps s M) x \<noteq> 0 \<longrightarrow>
               idToNode ?s' (get (nodeMaps s M) x) = None \<and>
               get (nodeMaps s M) x \<notin> childrenRequested ?s')"
    if r: "reaches d s M P x"
    using reaches_unbound[OF r assms] cleared_index[OF c, of x] by blast
  have 2: "map_of (nodeMaps ?s' M) x = map_of (nodeMaps s M) x" if "\<not> reaches d s M P x"
    using onlyAt_map[OF o, of x] that by simp
  have 3: "idToNode ?s' i = idToNode s i \<and>
            (i \<in> childrenRequested ?s' \<longleftrightarrow> i \<in> childrenRequested s)"
    if "\<forall>y. reaches d s M P y \<longrightarrow> get (nodeMaps s M) y \<noteq> i"
    using onlyAt_id[OF o, of i] that by simp
  have 4: "nodeMaps ?s' M' = nodeMaps s M'" if "M' \<noteq> M"
    using onlyAt_other[OF o that] .
  show ?thesis using 1 2 3 4 by blast
qed

lemma disclosed_get:
  "get (nodeMaps disclosed DocumentMap) x =
     (if x = 0 then 1 else if x = 1 then 2 else if x = 2 then 3 else if x = 5 then 4
      else if x = 4 then 5 else if x = 6 then 6 else 0)"
  by (simp add: agent_eval get_def)

lemma disclosed_distinct: "distinctIds (nodeMaps disclosed DocumentMap)"
  unfolding distinctIds_def disclosed_get by (auto split: if_splits)

lemma disclosed_reaches:
  "reaches page disclosed DocumentMap 1 x \<longleftrightarrow> x = 1 \<or> x = 2 \<or> x = 4 \<or> x = 6"
proof
  assume "reaches page disclosed DocumentMap 1 x"
  then show "x = 1 \<or> x = 2 \<or> x = 4 \<or> x = 6"
  proof (induction rule: reaches.induct)
    case start
    then show ?case by simp
  next
    case (step x c)
    have "childrenRequested disclosed = {2}" by (simp add: agent_eval)
    then have "x = 1" using step.hyps(3) by (simp add: disclosed_get split: if_splits)
    then show ?case using step.hyps(4) by (simp add: page_eval)
  qed
next
  assume x: "x = 1 \<or> x = 2 \<or> x = 4 \<or> x = 6"
  have k: "x \<in> set (innerChildren page 1)" if "x = 2 \<or> x = 4 \<or> x = 6"
    using that by (auto simp: page_eval)
  have g: "get (nodeMaps disclosed DocumentMap) 1 \<noteq> 0"
    "get (nodeMaps disclosed DocumentMap) 1 \<in> childrenRequested disclosed"
    by (simp_all add: disclosed_get) (simp add: agent_eval)
  show "reaches page disclosed DocumentMap 1 x"
    using x reaches.start[of page disclosed DocumentMap 1]
      reaches.step[OF reaches.start g k] by blast
qed

theorem unbind_transitive_witness:
  "distinctIds (nodeMaps disclosed DocumentMap) \<and>
   get (nodeMaps disclosed DocumentMap) 1 = 2 \<and> 2 \<in> childrenRequested disclosed \<and>
   reaches page disclosed DocumentMap 1 1 \<and>
   get (nodeMaps (unbind page 1 DocumentMap disclosed) DocumentMap) 1 = 0 \<and>
   idToNode (unbind page 1 DocumentMap disclosed) 2 = None \<and>
   2 \<notin> childrenRequested (unbind page 1 DocumentMap disclosed) \<and>
   reaches page disclosed DocumentMap 1 4 \<and> get (nodeMaps disclosed DocumentMap) 4 = 5 \<and>
   get (nodeMaps (unbind page 1 DocumentMap disclosed) DocumentMap) 4 = 0 \<and>
   idToNode (unbind page 1 DocumentMap disclosed) 5 = None \<and>
   \<not> reaches page disclosed DocumentMap 1 5 \<and>
   map_of (nodeMaps (unbind page 1 DocumentMap disclosed) DocumentMap) 5 = Some 4 \<and>
   idToNode (unbind page 1 DocumentMap disclosed) 4 = Some 5 \<and>
   DanglingMap 0 \<noteq> DocumentMap \<and>
   nodeMaps (unbind page 1 DocumentMap disclosed) (DanglingMap 0) = []"
proof -
  note t = unbind_transitive [OF disclosed_distinct, where d = page and P = 1]
  have r1: "reaches page disclosed DocumentMap 1 1" and r4: "reaches page disclosed DocumentMap 1 4"
    and r5: "\<not> reaches page disclosed DocumentMap 1 5"
    unfolding disclosed_reaches by simp_all
  have g: "get (nodeMaps disclosed DocumentMap) 1 = 2" "get (nodeMaps disclosed DocumentMap) 4 = 5"
    by (simp_all add: disclosed_get)
  have q: "2 \<in> childrenRequested disclosed" by (simp add: agent_eval)
  have a: "get (nodeMaps (unbind page 1 DocumentMap disclosed) DocumentMap) 1 = 0 \<and>
     idToNode (unbind page 1 DocumentMap disclosed) 2 = None \<and>
     2 \<notin> childrenRequested (unbind page 1 DocumentMap disclosed)"
    using t [where x = 1, THEN conjunct1, THEN mp, OF r1] g(1) by simp
  have b: "get (nodeMaps (unbind page 1 DocumentMap disclosed) DocumentMap) 4 = 0 \<and>
     idToNode (unbind page 1 DocumentMap disclosed) 5 = None"
    using t [where x = 4, THEN conjunct1, THEN mp, OF r4] g(2) by simp
  have c: "map_of (nodeMaps (unbind page 1 DocumentMap disclosed) DocumentMap) 5 = Some 4"
    using t [where x = 5, THEN conjunct2, THEN conjunct1, THEN mp, OF r5]
    by (simp add: agent_eval)
  have n4: "\<forall>y. reaches page disclosed DocumentMap 1 y \<longrightarrow> get (nodeMaps disclosed DocumentMap) y \<noteq> 4"
    unfolding disclosed_reaches by (auto simp: disclosed_get)
  have e: "idToNode (unbind page 1 DocumentMap disclosed) 4 = Some 5"
    using t [where i = 4, THEN conjunct2, THEN conjunct2, THEN conjunct1, THEN mp, OF n4]
    by (simp add: agent_eval)
  have f: "nodeMaps (unbind page 1 DocumentMap disclosed) (DanglingMap 0) = []"
    using t [where M' = "DanglingMap 0", THEN conjunct2, THEN conjunct2, THEN conjunct2]
    by (simp add: agent_eval)
  show ?thesis
    using disclosed_distinct g q r1 a r4 b r5 c e f by simp
qed

section \<open>Whitespace text nodes\<close>

text \<open>
  A record shows a whitespace text when it, or a record below it, has the type 3 and a value
  of whitespace only; a message shows one when one of its records does. \<open>detachedText m i\<close>:
  the message \<open>m\<close> sets a detached root whose record has the identifier \<open>i\<close> and is that of a
  whitespace text, without children.
\<close>

fun blank :: "nodeObject \<Rightarrow> bool" where
  "blank (NodeObject nid ty nm ln nv cc ch at du dt) =
     ((ty = 3 \<and> stripWhiteSpace nv = []) \<or>
      (case ch of None \<Rightarrow> False | Some cs \<Rightarrow> list_ex blank cs))"

fun showsWhitespace :: "message \<Rightarrow> bool" where
  "showsWhitespace (SetDocument v) = (case v of None \<Rightarrow> False | Some r \<Rightarrow> blank r)"
| "showsWhitespace (SetChildNodes i rs) = list_ex blank rs"
| "showsWhitespace (ChildNodeInserted p q r) = blank r"
| "showsWhitespace (SetDetachedRoot r) = blank r"
| "showsWhitespace (ChildNodeCountUpdated i c) = False"
| "showsWhitespace (ChildNodeRemoved p i) = False"
| "showsWhitespace (AddNodesToSearchResult is) = False"
| "showsWhitespace (DidGetChildNodes i) = False"
| "showsWhitespace (DidSetOuterHTML i j) = False"
| "showsWhitespace (DidChangeTagName i j) = False"
| "showsWhitespace (DidGetEventListenersForNode i j ls) = False"
| "showsWhitespace (DidPushNodeByPathToFrontend i j) = False"

fun detachedText :: "message \<Rightarrow> int \<Rightarrow> bool" where
  "detachedText (SetDetachedRoot r) i =
     (objId r = i \<and> objNodeType r = 3 \<and> stripWhiteSpace (objNodeValue r) = [] \<and>
      objChildNodeCount r = None \<and> objChildren r = None)"
| "detachedText m i = False"

text \<open>
  Between a state \<open>s\<close> and a later state \<open>s'\<close>: the messages sent, and whether a node has got
  an identifier in a map, that is, has one in \<open>s'\<close> that it did not have in \<open>s\<close>.
\<close>

definition sent :: "agent \<Rightarrow> agent \<Rightarrow> message list" where
  "sent s s' = drop (length (frontend s)) (frontend s')"

definition newlyBound :: "agent \<Rightarrow> agent \<Rightarrow> mapRef \<Rightarrow> node \<Rightarrow> bool" where
  "newlyBound s s' M w =
     (get (nodeMaps s' M) w \<noteq> 0 \<and> get (nodeMaps s' M) w \<noteq> get (nodeMaps s M) w)"

text \<open>
  \<open>spares T s s'\<close>, for the trees \<open>T\<close> that an operation works on: the operation has only
  added messages; a message that it has sent and that shows a whitespace text sets a
  detached root that is the whitespace text itself; and a node that is a whitespace text in
  every tree of \<open>T\<close> has got an identifier only in a map other than that of the document,
  only when it has no inner parent in a tree of \<open>T\<close>, and then a message sent sets it as a
  detached root with that identifier.
\<close>

definition spares :: "dom set \<Rightarrow> agent \<Rightarrow> agent \<Rightarrow> bool" where
  "spares T s s' =
     (frontend s' = frontend s @ sent s s' \<and>
      (\<forall>m \<in> set (sent s s'). showsWhitespace m \<longrightarrow> (\<exists>i. detachedText m i)) \<and>
      (\<forall>M w. (\<forall>d \<in> T. isWhitespace d (Some w)) \<and> newlyBound s s' M w \<longrightarrow>
          M \<noteq> DocumentMap \<and> (\<exists>d \<in> T. innerParentNode d w = None) \<and>
          (\<exists>m \<in> set (sent s s'). detachedText m (get (nodeMaps s' M) w))))"

text \<open>
  \<open>treeOk D d\<close>, for the set \<open>D\<close> of the nodes that are documents: in the tree \<open>d\<close> a node of
  \<open>D\<close> has the type of a document and its first child is not a whitespace text, and the
  content document of a frame owner is in \<open>D\<close>. \<^verbatim>\<open>m_documents\<close> and \<^verbatim>\<open>contentDocument()\<close>
  hold a \<^verbatim>\<open>Document*\<close>, and a document has no text child.
\<close>

definition treeOk :: "node set \<Rightarrow> dom \<Rightarrow> bool" where
  "treeOk D d =
     ((\<forall>doc \<in> D. nodeType d doc = DOCUMENT_NODE \<and> \<not> isWhitespace d (firstChild d doc)) \<and>
      (\<forall>f doc. isFrameOwnerElement d f \<and> contentDocument d f = Some doc \<longrightarrow> doc \<in> D))"

text \<open>
  The operations of a session, each with the tree as it is at the call. A call that changes
  the tree carries what the tree does: the exception code, the tree after the call and the
  notifications sent during the call; \<^verbatim>\<open>changeTagName\<close> also the exception code and the
  element of \<^verbatim>\<open>createElement\<close>. \<open>steps\<close> lists, for every operation of a sequence that
  returns, the state before it, the operation and the state after it; the sequence ends at
  the first operation that does not return. The other requests of the file (on attributes,
  the removal of a node, the value of a text, the markup, the styles) and
  \<^verbatim>\<open>didModifyDOMAttr\<close> call none of \<^verbatim>\<open>bind\<close>, \<^verbatim>\<open>unbind\<close>, \<^verbatim>\<open>discardBindings\<close> and
  the builders of records, and send no record of a node.
\<close>

datatype operation =
    Reset
  | SetMainDocument dom "node option"
  | HandleEvent dom eventType "node option"
  | DiscardAll
  | PushDocument dom
  | PushChildNodes dom int
  | GetChildNodes dom int int
  | PushNodePath dom node
  | SetOuterHTML "notification list" int dom dom int int string
  | ChangeTagName int node "notification list" int dom dom int int string
  | DidInsert dom node
  | DidRemove dom node
  | PerformSearch dom string bool
  | OnMatchJobsTimer dom
  | SearchCanceled
  | PushNodeByPath "string \<Rightarrow> string list" "string \<Rightarrow> nat option" dom int string
  | GetEventListeners listeners dom int int

fun perform :: "operation \<Rightarrow> agent \<Rightarrow> error + agent" where
  "perform Reset s = Inr (reset s)"
| "perform (SetMainDocument d doc) s = Inr (setDocument d doc s)"
| "perform (HandleEvent d ty node) s = Inr (handleEvent d ty node s)"
| "perform DiscardAll s = Inr (discardBindings s)"
| "perform (PushDocument d) s = Inr (snd (pushDocumentToFrontend d s))"
| "perform (PushChildNodes d i) s = pushChildNodesToFrontend d i s"
| "perform (GetChildNodes d callId i) s = getChildNodes d callId i s"
| "perform (PushNodePath d n) s = map_sum id snd (pushNodePathToFrontend d n s)"
| "perform (SetOuterHTML notifications ec d1 d callId i html) s =
     map_sum id snd (setOuterHTML (\<lambda>d n h t. (ec, d1, notify notifications t)) d callId i html s)"
| "perform (ChangeTagName ec0 newElem notifications ec d1 d callId i tagName) s =
     map_sum id snd
       (changeTagName (\<lambda>d n tg. (ec0, newElem)) (\<lambda>d n e t. (ec, d1, notify notifications t))
          d callId i tagName s)"
| "perform (DidInsert d n) s = Inr (didInsertDOMNode d n s)"
| "perform (DidRemove d n) s = Inr (didRemoveDOMNode d n s)"
| "perform (PerformSearch d query sync) s = performSearch d query sync s"
| "perform (OnMatchJobsTimer d) s = onMatchJobsTimer d s"
| "perform SearchCanceled s = Inr (searchCanceled s)"
| "perform (PushNodeByPath splt toUInt d callId path) s =
     pushNodeByPathToFrontend splt toUInt d callId path s"
| "perform (GetEventListeners l d callId i) s = getEventListenersForNode l d callId i s"

fun steps :: "operation list \<Rightarrow> agent \<Rightarrow> (agent \<times> operation \<times> agent) list" where
  "steps [] s = []"
| "steps (op # rest) s =
     (case perform op s of Inl e \<Rightarrow> [] | Inr s1 \<Rightarrow> (s, op, s1) # steps rest s1)"

text \<open>The tree of a notification, and the trees on which an operation binds and describes.\<close>

fun noteTree :: "notification \<Rightarrow> dom" where
  "noteTree (NodeInserted d n) = d"
| "noteTree (NodeRemoved d n) = d"

fun trees :: "operation \<Rightarrow> dom list" where
  "trees Reset = []"
| "trees (SetMainDocument d doc) = [d]"
| "trees (HandleEvent d ty node) = [d]"
| "trees DiscardAll = []"
| "trees (PushDocument d) = [d]"
| "trees (PushChildNodes d i) = [d]"
| "trees (GetChildNodes d callId i) = [d]"
| "trees (PushNodePath d n) = [d]"
| "trees (SetOuterHTML notifications ec d1 d callId i html) = map noteTree notifications @ [d1]"
| "trees (ChangeTagName ec0 newElem notifications ec d1 d callId i tagName) = map noteTree notifications @ [d1]"
| "trees (DidInsert d n) = [d]"
| "trees (DidRemove d n) = [d]"
| "trees (PerformSearch d query sync) = [d]"
| "trees (OnMatchJobsTimer d) = [d]"
| "trees SearchCanceled = []"
| "trees (PushNodeByPath splt toUInt d callId path) = [d]"
| "trees (GetEventListeners l d callId i) = [d]"

text \<open>
  An operation is admissible when its trees are as above, the document that is set is a
  document, and the target of a load event is not a whitespace text.
\<close>

fun admissible :: "node set \<Rightarrow> operation \<Rightarrow> bool" where
  "admissible D (SetMainDocument d doc) =
     (treeOk D d \<and> (case doc of None \<Rightarrow> True | Some dc \<Rightarrow> dc \<in> D))"
| "admissible D (HandleEvent d ty node) =
     (treeOk D d \<and> (ty = LoadEvent \<longrightarrow> \<not> isWhitespace d node))"
| "admissible D op = list_all (treeOk D) (trees op)"

text \<open>A session on the example page.\<close>

definition visit :: "operation list" where
  "visit = [SetMainDocument page (Some 0), DidInsert page 3, PushNodePath page 3,
            PushNodePath page 9]"

text \<open>
  Two relations for the proofs, both under the condition that the documents listened to in
  \<open>s\<close> are in \<open>D\<close>, and both with the conclusion that those of \<open>s'\<close> are: \<open>calm\<close>, where no
  message added shows a whitespace text and no whitespace text has got an identifier, and
  \<open>moves\<close>, with \<open>spares\<close>.
\<close>

definition calm :: "node set \<Rightarrow> dom set \<Rightarrow> agent \<Rightarrow> agent \<Rightarrow> bool" where
  "calm D T s s' =
     (set (documents s) \<subseteq> D \<longrightarrow>
        (\<exists>new. frontend s' = frontend s @ new \<and> (\<forall>m \<in> set new. \<not> showsWhitespace m)) \<and>
        (\<forall>M w. (\<forall>d \<in> T. isWhitespace d (Some w)) \<longrightarrow> \<not> newlyBound s s' M w) \<and>
        set (documents s') \<subseteq> D)"

definition moves :: "node set \<Rightarrow> dom set \<Rightarrow> agent \<Rightarrow> agent \<Rightarrow> bool" where
  "moves D T s s' =
     (set (documents s) \<subseteq> D \<longrightarrow> spares T s s' \<and> set (documents s') \<subseteq> D)"

lemma calmI:
  assumes "set (documents s) \<subseteq> D \<Longrightarrow> frontend s' = frontend s @ new"
    and "\<And>m. set (documents s) \<subseteq> D \<Longrightarrow> m \<in> set new \<Longrightarrow> \<not> showsWhitespace m"
    and "\<And>M w. set (documents s) \<subseteq> D \<Longrightarrow> \<forall>d \<in> T. isWhitespace d (Some w) \<Longrightarrow>
           get (nodeMaps s' M) w = 0 \<or> get (nodeMaps s' M) w = get (nodeMaps s M) w"
    and "set (documents s) \<subseteq> D \<Longrightarrow> set (documents s') \<subseteq> D"
  shows "calm D T s s'"
  unfolding calm_def newlyBound_def using assms by blast

lemma calm_refl [simp]: "calm D T s s"
  by (rule calmI[where new = "[]"]) simp_all

lemma calm_trans:
  assumes a: "calm D T s s1" and b: "calm D T s1 s2"
  shows "calm D T s s2"
proof (cases "set (documents s) \<subseteq> D")
  case False
  then show ?thesis by (simp add: calm_def)
next
  case True
  obtain new1 where n1: "frontend s1 = frontend s @ new1" "\<forall>m \<in> set new1. \<not> showsWhitespace m"
    and m1: "\<forall>M w. (\<forall>d \<in> T. isWhitespace d (Some w)) \<longrightarrow> \<not> newlyBound s s1 M w"
    and d1: "set (documents s1) \<subseteq> D"
    using a True unfolding calm_def by blast
  obtain new2 where n2: "frontend s2 = frontend s1 @ new2" "\<forall>m \<in> set new2. \<not> showsWhitespace m"
    and m2: "\<forall>M w. (\<forall>d \<in> T. isWhitespace d (Some w)) \<longrightarrow> \<not> newlyBound s1 s2 M w"
    and d2: "set (documents s2) \<subseteq> D"
    using b d1 unfolding calm_def by blast
  show ?thesis
  proof (rule calmI[where new = "new1 @ new2"])
    show "frontend s2 = frontend s @ new1 @ new2" using n1 n2 by simp
    show "\<not> showsWhitespace m" if "m \<in> set (new1 @ new2)" for m
      using that n1(2) n2(2) by auto
    show "get (nodeMaps s2 M) w = 0 \<or> get (nodeMaps s2 M) w = get (nodeMaps s M) w"
      if "\<forall>d \<in> T. isWhitespace d (Some w)" for M w
      using m1 m2 that unfolding newlyBound_def by metis
    show "set (documents s2) \<subseteq> D" using d2 .
  qed
qed

lemma calm_mono: "calm D T s s' \<Longrightarrow> T \<subseteq> T' \<Longrightarrow> calm D T' s s'"
  unfolding calm_def by blast

lemma calm_same:
  "nodeMaps s' = nodeMaps s \<Longrightarrow> frontend s' = frontend s \<Longrightarrow> documents s' = documents s \<Longrightarrow>
   calm D T s s'"
  by (rule calmI[where new = "[]"]) simp_all

lemma calm_send: "\<not> showsWhitespace m \<Longrightarrow> calm D T s (send m s)"
  by (rule calmI[where new = "[m]"]) (simp_all add: send_def)

lemma calm_cleared:
  assumes "\<And>M. nodeMaps s' M = [] \<or> nodeMaps s' M = nodeMaps s M"
    and "frontend s' = frontend s" and "set (documents s') \<subseteq> set (documents s)"
  shows "calm D T s s'"
proof (rule calmI[where new = "[]"])
  show "get (nodeMaps s' M) w = 0 \<or> get (nodeMaps s' M) w = get (nodeMaps s M) w" for M w
    using assms(1)[of M] by (auto simp: get_def)
qed (use assms in auto)

lemma get_update: "get (AList.update n i m) w = (if w = n then i else get m w)"
  by (simp add: get_def update_conv')

lemma calm_bind:
  assumes "\<exists>d \<in> T. \<not> isWhitespace d (Some n)"
  shows "calm D T s (snd (bind n M s))"
proof (rule calmI[where new = "[]"])
  show "get (nodeMaps (snd (bind n M s)) M') w = 0 \<or>
        get (nodeMaps (snd (bind n M s)) M') w = get (nodeMaps s M') w"
    if "\<forall>d \<in> T. isWhitespace d (Some w)" for M' w
  proof -
    have "w \<noteq> n" using that assms by blast
    then show ?thesis by (simp add: bind_def Let_def get_update)
  qed
qed (simp_all add: bind_def Let_def)

lemma treeOk_frame:
  "treeOk D d \<Longrightarrow> isFrameOwnerElement d f \<Longrightarrow> contentDocument d f = Some doc \<Longrightarrow>
   doc \<in> D \<and> \<not> isWhitespace d (firstChild d doc)"
  unfolding treeOk_def by blast

lemma calm_innerFirstChild:
  assumes "treeOk D d"
  shows "calm D T s (snd (innerFirstChild d n s))"
proof (rule calmI[where new = "[]"])
  show "set (documents (snd (innerFirstChild d n s))) \<subseteq> D" if "set (documents s) \<subseteq> D"
    using that treeOk_frame[OF assms]
    by (auto simp: innerFirstChild_def startListening_def split: option.splits if_splits)
qed (simp_all add: innerFirstChild_def startListening_def split: option.splits)

lemma calm_innerChildNodeCount:
  "treeOk D d \<Longrightarrow> calm D T s (snd (innerChildNodeCount d n s))"
  by (simp add: innerChildNodeCount_def calm_innerFirstChild)

lemma skipWhitespace_visible:
  "skipWhitespace d xs = Some c \<Longrightarrow> \<not> isWhitespace d (Some c)"
  by (induction xs) (auto split: if_splits)

lemma innerFirstChild_visible:
  assumes "treeOk D d" and "fst (innerFirstChild d n s) = Some c"
  shows "\<not> isWhitespace d (Some c)"
proof (cases "if isFrameOwnerElement d n then contentDocument d n else None")
  case None
  then show ?thesis
    using assms(2) by (auto simp: innerFirstChild_def dest: skipWhitespace_visible)
next
  case (Some doc)
  then have "isFrameOwnerElement d n" "contentDocument d n = Some doc"
    by (auto split: if_splits)
  then have "\<not> isWhitespace d (firstChild d doc)"
    using treeOk_frame[OF assms(1)] by blast
  then show ?thesis
    using assms(2) Some by (simp add: innerFirstChild_def)
qed

lemma innerChildren_visible:
  assumes t: "treeOk D d" and c: "c \<in> set (innerChildren d n)"
  shows "\<not> isWhitespace d (Some c)"
proof (cases "if isFrameOwnerElement d n then contentDocument d n else None")
  case None
  then show ?thesis
    using c by (auto simp: innerChildren_def)
next
  case (Some doc)
  then have f: "isFrameOwnerElement d n" "contentDocument d n = Some doc"
    by (auto split: if_splits)
  show ?thesis
  proof (cases "childNodes d doc")
    case Nil
    then show ?thesis using c Some by (simp add: innerChildren_def)
  next
    case (Cons c0 rest)
    then have "\<not> isWhitespace d (Some c0)"
      using treeOk_frame[OF t f] by (simp add: firstChild_def)
    then show ?thesis
      using c Some Cons by (auto simp: innerChildren_def)
  qed
qed

lemma nodeTypeCode_text: "nodeTypeCode ty = 3 \<longleftrightarrow> ty = TEXT_NODE"
  by (cases ty) simp_all

lemma blank_describe: "blank (describe d n i) \<longleftrightarrow> isWhitespace d (Some n)"
  by (auto simp: describe_def Let_def isWhitespace_def nodeTypeCode_text)

lemma blank_describeContainer:
  "blank (describeContainer d n cnt ch (describe d n' i))
     \<longleftrightarrow> isWhitespace d (Some n') \<or> list_ex blank ch"
  by (cases ch) (auto simp: describeContainer_def describe_def Let_def isWhitespace_def
      nodeTypeCode_text)

lemma blank_describeDocType:
  "blank (describeDocType d n (describe d n' i)) \<longleftrightarrow> isWhitespace d (Some n')"
  by (auto simp: describeDocType_def describe_def Let_def isWhitespace_def nodeTypeCode_text)

lemma build_calm:
  "treeOk D d \<Longrightarrow> \<not> isWhitespace d (Some n) \<Longrightarrow>
     calm D {d} s (snd (buildObjectForNode d n depth M s)) \<and>
     \<not> blank (fst (buildObjectForNode d n depth M s))"
  "treeOk D d \<Longrightarrow>
     calm D {d} s (snd (buildArrayForContainerChildren d c depth M s)) \<and>
     \<not> list_ex blank (fst (buildArrayForContainerChildren d c depth M s))"
  "treeOk D d \<Longrightarrow> \<forall>n \<in> set ns. \<not> isWhitespace d (Some n) \<Longrightarrow>
     calm D {d} s (snd (buildObjectsForNodes d ns depth M s)) \<and>
     \<not> list_ex blank (fst (buildObjectsForNodes d ns depth M s))"
proof (induction d n depth M s and d c depth M s and d ns depth M s
    rule: buildObjectForNode_buildArrayForContainerChildren_buildObjectsForNodes.induct)
  case (1 d node depth nodesMap s)
  let ?b = "bind node nodesMap s"
  have ib: "calm D {d} s (snd ?b)"
    using calm_bind[of "{d}" node] "1.prems"(2) by simp
  have nb: "\<not> isWhitespace d (Some node)"
    using "1.prems"(2) .
  show ?case
  proof (cases "isContainerType (nodeType d node)")
    case True
    let ?c = "innerChildNodeCount d node (snd ?b)"
    have ic: "calm D {d} s (snd ?c)"
      using calm_trans[OF ib calm_innerChildNodeCount[OF "1.prems"(1)]] .
    have "calm D {d} (snd ?c) (snd (buildArrayForContainerChildren d node depth nodesMap (snd ?c))) \<and>
          \<not> list_ex blank (fst (buildArrayForContainerChildren d node depth nodesMap (snd ?c)))"
      using "1.IH"[OF refl refl True refl "1.prems"(1)] .
    then have "calm D {d} s (snd (buildArrayForContainerChildren d node depth nodesMap (snd ?c))) \<and>
          \<not> list_ex blank (fst (buildArrayForContainerChildren d node depth nodesMap (snd ?c)))"
      using calm_trans[OF ic] by blast
    then show ?thesis
      using True nb
      by (subst (1 2) buildObjectForNode.simps) (simp add: Let_def blank_describeContainer)
  next
    case False
    then show ?thesis
      using ib nb
      by (subst (1 2) buildObjectForNode.simps)
         (simp add: Let_def blank_describe blank_describeDocType)
  qed
next
  case (2 d container depth nodesMap s)
  show ?case
  proof (cases "depth = 0")
    case True
    let ?c = "innerChildNodeCount d container s"
    let ?f = "innerFirstChild d container (snd ?c)"
    have ic: "calm D {d} s (snd ?c)"
      using calm_innerChildNodeCount[OF "2.prems"] .
    have jf: "calm D {d} s (snd ?f)"
      using calm_trans[OF ic calm_innerFirstChild[OF "2.prems"]] .
    show ?thesis
    proof (cases "fst ?c = 1 \<and> (\<exists>child. fst ?f = Some child \<and> nodeType d child = TEXT_NODE)")
      case False
      then show ?thesis
        using True ic jf
        by (subst (1 2) buildArrayForContainerChildren.simps)
           (auto simp: Let_def split: option.splits)
    next
      case yes: True
      then obtain child where ch: "fst ?f = Some child" "nodeType d child = TEXT_NODE"
        by blast
      have cw: "\<not> isWhitespace d (Some child)"
        using innerFirstChild_visible[OF "2.prems" ch(1)] .
      have "calm D {d} (snd ?f) (snd (buildObjectForNode d child 0 nodesMap (snd ?f))) \<and>
            \<not> blank (fst (buildObjectForNode d child 0 nodesMap (snd ?f)))"
        using "2.IH"(1)[OF True refl _ refl ch "2.prems" cw] yes by simp
      then have "calm D {d} s (snd (buildObjectForNode d child 0 nodesMap (snd ?f))) \<and>
            \<not> blank (fst (buildObjectForNode d child 0 nodesMap (snd ?f)))"
        using calm_trans[OF jf] by blast
      then show ?thesis
        using True yes ch
        by (subst (1 2) buildArrayForContainerChildren.simps) (simp add: Let_def)
    qed
  next
    case False
    let ?f = "innerFirstChild d container s"
    have jf: "calm D {d} s (snd ?f)"
      using calm_innerFirstChild[OF "2.prems"] .
    have vis: "\<forall>n \<in> set (innerChildren d container). \<not> isWhitespace d (Some n)"
      using innerChildren_visible[OF "2.prems"] by blast
    have "calm D {d} (snd ?f) (snd (buildObjectsForNodes d (innerChildren d container) (depth - 1) nodesMap (snd ?f))) \<and>
          \<not> list_ex blank (fst (buildObjectsForNodes d (innerChildren d container) (depth - 1) nodesMap (snd ?f)))"
      using "2.IH"(2)[OF False "2.prems" vis] .
    then have "calm D {d} s (snd (buildObjectsForNodes d (innerChildren d container) (depth - 1) nodesMap (snd ?f))) \<and>
          \<not> list_ex blank (fst (buildObjectsForNodes d (innerChildren d container) (depth - 1) nodesMap (snd ?f)))"
      using calm_trans[OF jf] by blast
    then show ?thesis
      using False
      by (subst (1 2) buildArrayForContainerChildren.simps) simp
  qed
next
  case (3 d depth nodesMap s)
  then show ?case by simp
next
  case (4 d child rest depth nodesMap s)
  let ?v = "buildObjectForNode d child depth nodesMap s"
  have a: "calm D {d} s (snd ?v) \<and> \<not> blank (fst ?v)"
    using "4.IH"(1)[OF "4.prems"(1)] "4.prems"(2) by simp
  have "calm D {d} (snd ?v) (snd (buildObjectsForNodes d rest depth nodesMap (snd ?v))) \<and>
           \<not> list_ex blank (fst (buildObjectsForNodes d rest depth nodesMap (snd ?v)))"
    using "4.IH"(2)[OF refl "4.prems"(1)] "4.prems"(2) by simp
  then have b: "calm D {d} s (snd (buildObjectsForNodes d rest depth nodesMap (snd ?v))) \<and>
           \<not> list_ex blank (fst (buildObjectsForNodes d rest depth nodesMap (snd ?v)))"
    using calm_trans[OF a[THEN conjunct1]] by blast
  show ?case
    using a b by (simp add: Let_def)
qed

lemma documents_unbindFrameOwner:
  "set (documents (unbindFrameOwner d n s)) \<subseteq> set (documents s)"
  by (auto simp: unbindFrameOwner_def stopListening_def Let_def split: option.splits)

lemma documents_innerFirstChild:
  "treeOk D d \<Longrightarrow> set (documents s) \<subseteq> D \<Longrightarrow>
   set (documents (snd (innerFirstChild d n s))) \<subseteq> D"
  using calm_innerFirstChild[of D d "{}" s n] by (simp add: calm_def)

lemma unbind_documents:
  "treeOk D d \<Longrightarrow> set (documents s) \<subseteq> D \<Longrightarrow>
     set (documents (unbind d n M s)) \<subseteq> D"
  "treeOk D d \<Longrightarrow> set (documents s) \<subseteq> D \<Longrightarrow>
     set (documents (unbindChildren d cs M s)) \<subseteq> D"
proof (induction d n M s and d cs M s rule: unbind_unbindChildren.induct)
  case (1 d node nodesMap s)
  let ?s1 = "unbindFrameOwner d node s"
  let ?i = "get (nodeMaps ?s1 nodesMap) node"
  let ?s2 = "forget node nodesMap ?i ?s1"
  let ?s3 = "snd (innerFirstChild d node (?s2\<lparr>childrenRequested := childrenRequested ?s2 - {?i}\<rparr>))"
  have a: "set (documents ?s1) \<subseteq> D"
    using documents_unbindFrameOwner[of d node s] "1.prems"(2) by blast
  then have b: "set (documents ?s2) \<subseteq> D"
    by (simp add: forget_def)
  then have c: "set (documents ?s3) \<subseteq> D"
    using documents_innerFirstChild[OF "1.prems"(1), of "?s2\<lparr>childrenRequested := childrenRequested ?s2 - {?i}\<rparr>" node]
    by simp
  show ?case
  proof (cases "?i \<noteq> 0 \<and> ?i \<in> childrenRequested ?s2")
    case True
    have "set (documents (unbindChildren d (innerChildren d node) nodesMap ?s3)) \<subseteq> D"
      using "1.IH"[OF refl refl _ refl _ "1.prems"(1) c] True by simp
    then show ?thesis using True
      by (subst unbind.simps) (simp add: Let_def)
  next
    case False
    then show ?thesis using a b
      by (subst unbind.simps) (auto simp: Let_def)
  qed
next
  case (2 d nodesMap s)
  then show ?case by simp
next
  case (3 d child rest nodesMap s)
  then show ?case by simp
qed

lemma mapsLe_get:
  "mapsLe s' s \<Longrightarrow> get (nodeMaps s' M) x = 0 \<or> get (nodeMaps s' M) x = get (nodeMaps s M) x"
  by (auto simp: get_def split: option.splits dest: mapsLe_Some)

lemma calm_unbind:
  assumes "treeOk D d"
  shows "calm D T s (unbind d n M s)"
proof (rule calmI[where new = "[]"])
  show "frontend (unbind d n M s) = frontend s @ []"
    using unbind_fields(1)[of d n M s] by simp
  show "get (nodeMaps (unbind d n M s) M') w = 0 \<or>
        get (nodeMaps (unbind d n M s) M') w = get (nodeMaps s M') w" for M' w
    using mapsLe_get[OF unbind_mapsLe(1)] .
  show "set (documents (unbind d n M s)) \<subseteq> D" if "set (documents s) \<subseteq> D"
    using unbind_documents(1)[OF assms that] .
qed simp

lemma calm_discardBindings: "calm D T s (discardBindings s)"
  by (rule calm_cleared)
     (auto simp: discardBindings_def releaseDanglingNodes_def Let_def)

lemma calm_newDanglingMap: "calm D T s (snd (newDanglingMap s))"
  by (rule calm_cleared) (auto simp: newDanglingMap_def Let_def)

lemma calm_searchCanceled: "calm D T s (searchCanceled s)"
  by (rule calm_same) (simp_all add: searchCanceled_def)

lemma fold_stopListening:
  "nodeMaps (fold (\<lambda>doc. stopListening (Some doc)) xs s) = nodeMaps s \<and>
   frontend (fold (\<lambda>doc. stopListening (Some doc)) xs s) = frontend s \<and>
   set (documents (fold (\<lambda>doc. stopListening (Some doc)) xs s)) \<subseteq> set (documents s)"
proof (induction xs arbitrary: s)
  case Nil
  then show ?case by simp
next
  case (Cons x xs)
  have "nodeMaps (stopListening (Some x) s) = nodeMaps s"
    "frontend (stopListening (Some x) s) = frontend s"
    "set (documents (stopListening (Some x) s)) \<subseteq> set (documents s)"
    by (auto simp: stopListening_def)
  then show ?case
    using Cons.IH[of "stopListening (Some x) s"] by auto
qed

lemma calm_reset: "calm D T s (reset s)"
proof -
  let ?s1 = "discardBindings (searchCanceled s)"
  have a: "calm D T s ?s1"
    using calm_trans[OF calm_searchCanceled calm_discardBindings] .
  have "calm D T ?s1 (fold (\<lambda>doc. stopListening (Some doc)) (documents ?s1) ?s1)"
    using fold_stopListening[of "documents ?s1" ?s1]
    by (intro calm_cleared) auto
  then show ?thesis
    using calm_trans[OF a] by (simp add: reset_def Let_def)
qed

lemma calm_pushDocumentToFrontend:
  assumes t: "treeOk D d"
  shows "calm D {d} s (snd (pushDocumentToFrontend d s))"
proof (cases "set (documents s) \<subseteq> D")
  case False
  then show ?thesis by (simp add: calm_def)
next
  case True
  show ?thesis
  proof (cases "mainFrameDocument s")
    case None
    then show ?thesis by (simp add: pushDocumentToFrontend_def)
  next
    case (Some document)
    then have "document \<in> set (documents s)"
      by (auto simp: mainFrameDocument_def split: list.splits)
    then have "nodeType d document = DOCUMENT_NODE"
      using True t by (auto simp: treeOk_def)
    then have nw: "\<not> isWhitespace d (Some document)"
      by (simp add: isWhitespace_def)
    let ?v = "buildObjectForNode d document 2 DocumentMap s"
    have b: "calm D {d} s (snd ?v)" "\<not> blank (fst ?v)"
      using build_calm(1)[OF t nw] by blast+
    have "calm D {d} s (send (SetDocument (Some (fst ?v))) (snd ?v))"
      using calm_trans[OF b(1) calm_send] b(2) by simp
    then show ?thesis
      using Some by (simp add: pushDocumentToFrontend_def Let_def)
  qed
qed

lemma calm_requested: "calm D T s (s\<lparr>childrenRequested := X\<rparr>)"
  by (rule calm_same) simp_all

lemma calm_pushChildNodesToFrontend:
  assumes t: "treeOk D d" and r: "pushChildNodesToFrontend d i s = Inr s'"
  shows "calm D {d} s s'"
proof (cases "\<exists>node nodeMap. nodeForId s i = Some node \<and> isContainerType (nodeType d node) \<and>
    i \<notin> childrenRequested s \<and> idToNodesMap s i = Some nodeMap")
  case False
  then have "s' = s"
    using r by (auto simp: pushChildNodesToFrontend_def split: option.splits if_splits)
  then show ?thesis by simp
next
  case True
  then obtain node nodeMap where h: "nodeForId s i = Some node"
    "isContainerType (nodeType d node)" "i \<notin> childrenRequested s" "idToNodesMap s i = Some nodeMap"
    by blast
  let ?a = "buildArrayForContainerChildren d node 1 nodeMap s"
  let ?s1 = "(snd ?a)\<lparr>childrenRequested := insert i (childrenRequested (snd ?a))\<rparr>"
  have b: "calm D {d} s (snd ?a)" "\<not> list_ex blank (fst ?a)"
    using build_calm(2)[OF t] by blast+
  have "calm D {d} s ?s1"
    using calm_trans[OF b(1) calm_requested] .
  then have "calm D {d} s (send (SetChildNodes i (fst ?a)) ?s1)"
    using calm_trans[OF _ calm_send] b(2) by simp
  moreover have "s' = send (SetChildNodes i (fst ?a)) ?s1"
    using r h by (simp add: pushChildNodesToFrontend_def Let_def)
  ultimately show ?thesis by simp
qed

lemma calm_getChildNodes:
  assumes t: "treeOk D d" and r: "getChildNodes d callId i s = Inr s'"
  shows "calm D {d} s s'"
proof -
  obtain s1 where p: "pushChildNodesToFrontend d i s = Inr s1"
    and e: "s' = send (DidGetChildNodes callId) s1"
    using r by (auto simp: getChildNodes_def split: sum.splits)
  show ?thesis
    unfolding e using calm_trans[OF calm_pushChildNodesToFrontend[OF t p] calm_send] by simp
qed

lemma calm_pushPath:
  "treeOk D d \<Longrightarrow> pushPath d M path s = Inr s' \<Longrightarrow> calm D {d} s s'"
proof (induction path arbitrary: s)
  case Nil
  then show ?case by simp
next
  case (Cons n rest)
  then obtain s1 where p: "pushChildNodesToFrontend d (get (nodeMaps s M) n) s = Inr s1"
    and q: "pushPath d M rest s1 = Inr s'"
    by (auto split: sum.splits)
  show ?case
    using calm_trans[OF calm_pushChildNodesToFrontend[OF Cons.prems(1) p] Cons.IH[OF Cons.prems(1) q]] .
qed

lemma calm_didInsertDOMNode:
  assumes t: "treeOk D d"
  shows "calm D {d} s (didInsertDOMNode d n s)"
proof (cases "isWhitespace d (Some n)")
  case True
  then show ?thesis by (simp add: didInsertDOMNode_def)
next
  case False
  let ?s1 = "unbind d n DocumentMap s"
  have u: "calm D {d} s ?s1" using calm_unbind[OF t] .
  show ?thesis
  proof (cases "parentNode d n")
    case None
    then show ?thesis using False u by (simp add: didInsertDOMNode_def Let_def)
  next
    case (Some parent)
    let ?p = "get (nodeMaps ?s1 DocumentMap) parent"
    let ?c = "innerChildNodeCount d parent ?s1"
    let ?v = "buildObjectForNode d n 0 DocumentMap ?s1"
    have c: "calm D {d} s (send (ChildNodeCountUpdated ?p (unsignedToInt (fst ?c))) (snd ?c))"
      using calm_trans[OF calm_trans[OF u calm_innerChildNodeCount[OF t]] calm_send] by simp
    have b: "calm D {d} ?s1 (snd ?v)" "\<not> blank (fst ?v)"
      using build_calm(1)[OF t False] by blast+
    have v: "calm D {d} s (send (ChildNodeInserted ?p x (fst ?v)) (snd ?v))" for x
      using calm_trans[OF calm_trans[OF u b(1)] calm_send] b(2) by simp
    show ?thesis
      using False Some u c v by (simp add: didInsertDOMNode_def Let_def)
  qed
qed

lemma calm_didRemoveDOMNode:
  assumes t: "treeOk D d"
  shows "calm D {d} s (didRemoveDOMNode d n s)"
proof (cases "isWhitespace d (Some n) \<or> parentNode d n = None")
  case True
  then show ?thesis by (auto simp: didRemoveDOMNode_def)
next
  case False
  then obtain parent where p: "parentNode d n = Some parent" by auto
  let ?p = "get (nodeMaps s DocumentMap) parent"
  let ?c = "innerChildNodeCount d parent s"
  have c: "calm D {d} s (snd ?c)" using calm_innerChildNodeCount[OF t] .
  have c1: "calm D {d} s (send (ChildNodeCountUpdated ?p 0) (snd ?c))"
    using calm_trans[OF c calm_send] by simp
  have r: "calm D {d} s (send (ChildNodeRemoved ?p x) s)" for x
    using calm_send[of "ChildNodeRemoved ?p x"] by simp
  have u: "calm D {d} s (unbind d n DocumentMap s1)" if "calm D {d} s s1" for s1
    using calm_trans[OF that calm_unbind[OF t]] .
  show ?thesis
    using False p u[OF c] u[OF c1] u[OF r]
    by (simp add: didRemoveDOMNode_def Let_def)
qed

lemma calm_notify:
  "\<forall>d \<in> noteTree ` set notifications. treeOk D d \<Longrightarrow> calm D (noteTree ` set notifications) s (notify notifications s)"
proof (induction notifications arbitrary: s)
  case Nil
  then show ?case by simp
next
  case (Cons nt rest)
  have t: "treeOk D (noteTree nt)" using Cons.prems by simp
  have a: "calm D (noteTree ` set (nt # rest)) s1 (notify rest s1)" for s1
    using calm_mono[OF Cons.IH, of "noteTree ` set (nt # rest)"] Cons.prems by auto
  show ?case
  proof (cases nt)
    case (NodeInserted d n)
    have "calm D (noteTree ` set (nt # rest)) s (didInsertDOMNode d n s)"
      using calm_mono[OF calm_didInsertDOMNode, of D d] t NodeInserted by simp
    then show ?thesis
      using calm_trans[OF _ a] NodeInserted by simp
  next
    case (NodeRemoved d n)
    have "calm D (noteTree ` set (nt # rest)) s (didRemoveDOMNode d n s)"
      using calm_mono[OF calm_didRemoveDOMNode, of D d] t NodeRemoved by simp
    then show ?thesis
      using calm_trans[OF _ a] NodeRemoved by simp
  qed
qed

lemma calm_documents:
  "set (documents s') \<subseteq> D \<Longrightarrow> calm D T s (s\<lparr>documents := documents s'\<rparr>)"
  by (rule calmI[where new = "[]"]) simp_all

lemma calm_setDocument:
  assumes t: "treeOk D d" and dc: "case doc of None \<Rightarrow> True | Some dc \<Rightarrow> dc \<in> D"
  shows "calm D {d} s (setDocument d doc s)"
proof (cases "doc = mainFrameDocument s")
  case True
  then show ?thesis by (simp add: setDocument_def)
next
  case False
  let ?s1 = "reset s"
  have r: "calm D {d} s ?s1" by (rule calm_reset)
  show ?thesis
  proof (cases doc)
    case None
    then show ?thesis
      using False calm_trans[OF r calm_send, of "SetDocument None"]
      by (simp add: setDocument_def Let_def)
  next
    case (Some dc)
    let ?s2 = "startListening dc ?s1"
    have "calm D {d} ?s1 ?s2"
      by (rule calmI[where new = "[]"]) (use dc Some in \<open>auto simp: startListening_def\<close>)
    then have s2: "calm D {d} s ?s2" using calm_trans[OF r] by blast
    have "calm D {d} s (snd (pushDocumentToFrontend d ?s2))"
      using calm_trans[OF s2 calm_pushDocumentToFrontend[OF t]] .
    then show ?thesis
      using False Some s2 by (simp add: setDocument_def Let_def)
  qed
qed

lemma calm_handleEvent:
  assumes t: "treeOk D d" and w: "ty = LoadEvent \<longrightarrow> \<not> isWhitespace d node"
  shows "calm D {d} s (handleEvent d ty node s)"
proof (cases ty)
  case DOMContentLoadedEvent
  then show ?thesis
    using calm_trans[OF calm_discardBindings calm_pushDocumentToFrontend[OF t]]
    by (simp add: handleEvent_def)
next
  case OtherEvent
  then show ?thesis by (simp add: handleEvent_def)
next
  case LoadEvent
  show ?thesis
  proof (cases node)
    case None
    then show ?thesis using LoadEvent by (simp add: handleEvent_def)
  next
    case (Some n)
    then have nw: "\<not> isWhitespace d (Some n)" using w LoadEvent by simp
    let ?i = "get (nodeMaps s DocumentMap) n"
    let ?c = "innerChildNodeCount d n s"
    have c: "calm D {d} s (send (ChildNodeCountUpdated ?i (unsignedToInt (fst ?c))) (snd ?c))"
      using calm_trans[OF calm_innerChildNodeCount[OF t] calm_send] by simp
    have b: "calm D {d} s (send (ChildNodeInserted p q (fst (buildObjectForNode d n 0 DocumentMap (send (ChildNodeRemoved p ?i) s))))
                 (snd (buildObjectForNode d n 0 DocumentMap (send (ChildNodeRemoved p ?i) s))))" for p q
    proof -
      let ?s1 = "send (ChildNodeRemoved p ?i) s"
      let ?v = "buildObjectForNode d n 0 DocumentMap ?s1"
      have s1: "calm D {d} s ?s1" using calm_send[of "ChildNodeRemoved p ?i"] by simp
      have v: "calm D {d} ?s1 (snd ?v)" "\<not> blank (fst ?v)"
        using build_calm(1)[OF t nw] by blast+
      show ?thesis
        using calm_trans[OF calm_trans[OF s1 v(1)] calm_send] v(2) by simp
    qed
    have b': "calm D {d} s (s2\<lparr>childrenRequested := X\<rparr>)" if "calm D {d} s s2" for s2 X
      using calm_trans[OF that calm_requested] .
    show ?thesis
      using LoadEvent Some c b'[OF b]
      by (simp add: handleEvent_def Let_def)
  qed
qed

lemma sent_append: "frontend s' = frontend s @ new \<Longrightarrow> sent s s' = new"
  by (simp add: sent_def)

lemma calm_moves:
  assumes "calm D T s s'"
  shows "moves D T s s'"
proof (cases "set (documents s) \<subseteq> D")
  case False
  then show ?thesis by (simp add: moves_def)
next
  case True
  obtain new where n: "frontend s' = frontend s @ new" "\<forall>m \<in> set new. \<not> showsWhitespace m"
    and m: "\<forall>M w. (\<forall>d \<in> T. isWhitespace d (Some w)) \<longrightarrow> \<not> newlyBound s s' M w"
    and d: "set (documents s') \<subseteq> D"
    using assms True unfolding calm_def by blast
  have "spares T s s'"
    unfolding spares_def sent_append[OF n(1)] using n m by blast
  then show ?thesis using d by (simp add: moves_def)
qed

lemma moves_refl [simp]: "moves D T s s"
  using calm_moves[OF calm_refl] .

lemma moves_trans:
  assumes a: "moves D T s s1" and b: "moves D T s1 s2"
  shows "moves D T s s2"
proof (cases "set (documents s) \<subseteq> D")
  case False
  then show ?thesis by (simp add: moves_def)
next
  case True
  have a1: "spares T s s1" and d1: "set (documents s1) \<subseteq> D"
    using a True by (auto simp: moves_def)
  have b1: "spares T s1 s2" and d2: "set (documents s2) \<subseteq> D"
    using b d1 by (auto simp: moves_def)
  have f1: "frontend s1 = frontend s @ sent s s1" using a1 by (simp add: spares_def)
  have f2: "frontend s2 = frontend s1 @ sent s1 s2" using b1 by (simp add: spares_def)
  have f: "frontend s2 = frontend s @ (sent s s1 @ sent s1 s2)"
    using f1 f2 by simp
  have e: "sent s s2 = sent s s1 @ sent s1 s2"
    using sent_append[OF f] .
  have m: "\<exists>i. detachedText m i" if "m \<in> set (sent s s2)" "showsWhitespace m" for m
    using that a1 b1 unfolding e spares_def by auto
  have w: "M \<noteq> DocumentMap \<and> (\<exists>d \<in> T. innerParentNode d w = None) \<and>
           (\<exists>m \<in> set (sent s s2). detachedText m (get (nodeMaps s2 M) w))"
    if h: "\<forall>d \<in> T. isWhitespace d (Some w)" and nb: "newlyBound s s2 M w" for M w
  proof (cases "newlyBound s1 s2 M w")
    case True
    then have "M \<noteq> DocumentMap \<and> (\<exists>d \<in> T. innerParentNode d w = None) \<and>
           (\<exists>m \<in> set (sent s1 s2). detachedText m (get (nodeMaps s2 M) w))"
      using b1 h unfolding spares_def by blast
    then show ?thesis unfolding e by auto
  next
    case False
    then have eq: "get (nodeMaps s2 M) w = get (nodeMaps s1 M) w"
      using nb by (auto simp: newlyBound_def)
    then have "newlyBound s s1 M w"
      using nb by (simp add: newlyBound_def)
    then have "M \<noteq> DocumentMap \<and> (\<exists>d \<in> T. innerParentNode d w = None) \<and>
           (\<exists>m \<in> set (sent s s1). detachedText m (get (nodeMaps s1 M) w))"
      using a1 h unfolding spares_def by blast
    then show ?thesis unfolding e eq by auto
  qed
  have "spares T s s2"
    unfolding spares_def using f e m w by auto
  then show ?thesis using d2 by (simp add: moves_def)
qed

lemma moves_mono:
  assumes "moves D T s s'" and "T \<subseteq> T'"
  shows "moves D T' s s'"
  using assms unfolding moves_def spares_def by (auto; blast)

lemma moves_calm: "moves D T s s1 \<Longrightarrow> calm D T s1 s2 \<Longrightarrow> moves D T s s2"
  using moves_trans[OF _ calm_moves] by blast

lemma calm_then_moves: "calm D T s s1 \<Longrightarrow> moves D T s1 s2 \<Longrightarrow> moves D T s s2"
  using moves_trans[OF calm_moves] by blast

lemma findPath_no_parent:
  "findPath d m n p = Some y \<Longrightarrow>
   \<forall>root. snd y = Some root \<longrightarrow> innerParentNode d root = None"
  apply (erule findPath.raw_induct[rotated, where P = "\<lambda>d m n p y.
     \<forall>root. snd y = Some root \<longrightarrow> innerParentNode d root = None"])
  apply (auto split: option.splits if_splits)
  done

lemma findPath_detached:
  "findPath d m n p = Some (path, Some root) \<Longrightarrow> innerParentNode d root = None"
  using findPath_no_parent[of d m n p "(path, Some root)"] by simp

lemma findPath_root: "innerParentNode d n = None \<Longrightarrow> findPath d m n p = Some (p, Some n)"
  by (subst findPath.simps) simp

lemma build_text:
  "nodeType d n = TEXT_NODE \<Longrightarrow>
   buildObjectForNode d n depth M s =
     (NodeObject (fst (bind n M s)) 3 [] [] (nodeValue d n) None None None None None,
      snd (bind n M s))"
  by (subst buildObjectForNode.simps) (simp add: Let_def isContainerType_def describe_def)

lemma detached_state:
  assumes "nodeType d n = TEXT_NODE"
  shows "fst (newDanglingMap s) = DanglingMap (mapsAllocated s)"
    and "fst (buildObjectForNode d n 0 (fst (newDanglingMap s)) (snd (newDanglingMap s))) =
          NodeObject (lastNodeId s) 3 [] [] (nodeValue d n) None None None None None"
    and "send (SetDetachedRoot (fst (buildObjectForNode d n 0 (fst (newDanglingMap s))
                                          (snd (newDanglingMap s)))))
              (snd (buildObjectForNode d n 0 (fst (newDanglingMap s)) (snd (newDanglingMap s)))) =
          s\<lparr> lastNodeId := nextLong (lastNodeId s),
             nodeMaps := (nodeMaps s)(DanglingMap (mapsAllocated s) := [(n, lastNodeId s)]),
             danglingNodeToIdMaps := danglingNodeToIdMaps s @ [DanglingMap (mapsAllocated s)],
             mapsAllocated := Suc (mapsAllocated s),
             idToNode := (idToNode s)(lastNodeId s := Some n),
             idToNodesMap := (idToNodesMap s)(lastNodeId s := Some (DanglingMap (mapsAllocated s))),
             frontend := frontend s @
               [SetDetachedRoot
                  (NodeObject (lastNodeId s) 3 [] [] (nodeValue d n) None None None None None)] \<rparr>"
  by (simp_all add: build_text[OF assms] newDanglingMap_def bind_def Let_def get_def send_def)

lemma detached_moves:
  assumes w: "isWhitespace d (Some n)" and p: "innerParentNode d n = None"
  shows "moves D {d} s
           (send (SetDetachedRoot (fst (buildObjectForNode d n 0 (fst (newDanglingMap s))
                                          (snd (newDanglingMap s)))))
              (snd (buildObjectForNode d n 0 (fst (newDanglingMap s)) (snd (newDanglingMap s)))))"
    (is "moves D {d} s ?s'")
proof -
  have ty: "nodeType d n = TEXT_NODE" and v: "stripWhiteSpace (nodeValue d n) = []"
    using w by (simp_all add: isWhitespace_def)
  let ?m = "SetDetachedRoot
              (NodeObject (lastNodeId s) 3 [] [] (nodeValue d n) None None None None None)"
  have e: "?s' = s\<lparr> lastNodeId := nextLong (lastNodeId s),
             nodeMaps := (nodeMaps s)(DanglingMap (mapsAllocated s) := [(n, lastNodeId s)]),
             danglingNodeToIdMaps := danglingNodeToIdMaps s @ [DanglingMap (mapsAllocated s)],
             mapsAllocated := Suc (mapsAllocated s),
             idToNode := (idToNode s)(lastNodeId s := Some n),
             idToNodesMap := (idToNodesMap s)(lastNodeId s := Some (DanglingMap (mapsAllocated s))),
             frontend := frontend s @ [?m] \<rparr>"
    using detached_state(3)[OF ty, of s] .
  have f: "frontend ?s' = frontend s @ [?m]" unfolding e by simp
  have st: "sent s ?s' = [?m]" using sent_append[OF f] .
  have dt: "detachedText ?m (lastNodeId s)" using v by simp
  have nm: "nodeMaps ?s' = (nodeMaps s)(DanglingMap (mapsAllocated s) := [(n, lastNodeId s)])"
    unfolding e by simp
  have nbd: "M \<noteq> DocumentMap \<and> w' = n \<and> get (nodeMaps ?s' M) w' = lastNodeId s"
    if "newlyBound s ?s' M w'" for M w'
    using that unfolding newlyBound_def nm by (auto simp: get_def split: if_splits)
  have "spares {d} s ?s'"
    unfolding spares_def st using f dt p nbd by (auto simp: st)
  moreover have "documents ?s' = documents s" unfolding e by simp
  ultimately show ?thesis by (simp add: moves_def)
qed

lemma moves_pushNodePathToFrontend:
  assumes t: "treeOk D d" and r: "pushNodePathToFrontend d n s = Inr (k, s')"
  shows "moves D {d} s s'"
proof -
  let ?s1 = "snd (pushDocumentToFrontend d s)"
  have i1: "calm D {d} s ?s1"
    using calm_pushDocumentToFrontend[OF t] .
  show ?thesis
  proof (cases "\<not> fst (pushDocumentToFrontend d s) \<or> get (nodeMaps ?s1 DocumentMap) n \<noteq> 0")
    case True
    then have "s' = ?s1"
      using r by (auto simp: pushNodePathToFrontend_def Let_def split: if_splits)
    then show ?thesis using calm_moves[OF i1] by simp
  next
    case False
    then obtain path detached
      where f: "findPath d (nodeMaps ?s1 DocumentMap) n [] = Some (path, detached)"
      using r by (auto simp: pushNodePathToFrontend_def Let_def split: option.splits)
    let ?ms = "case detached of
                 None \<Rightarrow> (DocumentMap, ?s1)
               | Some root \<Rightarrow>
                   (let dm = newDanglingMap ?s1;
                        v = buildObjectForNode d root 0 (fst dm) (snd dm)
                    in (fst dm, send (SetDetachedRoot (fst v)) (snd v)))"
    have ims: "moves D {d} ?s1 (snd ?ms)"
    proof (cases detached)
      case None
      then show ?thesis by simp
    next
      case (Some root)
      have np: "innerParentNode d root = None"
        using findPath_detached[of d _ n "[]" path root] f Some by simp
      show ?thesis
      proof (cases "isWhitespace d (Some root)")
        case True
        then show ?thesis
          using Some detached_moves[OF True np, of D ?s1] by (simp add: Let_def)
      next
        case False
        let ?dm = "newDanglingMap ?s1"
        let ?v = "buildObjectForNode d root 0 (fst ?dm) (snd ?dm)"
        have b: "calm D {d} (snd ?dm) (snd ?v)" "\<not> blank (fst ?v)"
          using build_calm(1)[OF t False] by blast+
        have "calm D {d} ?s1 (send (SetDetachedRoot (fst ?v)) (snd ?v))"
          using calm_trans[OF calm_trans[OF calm_newDanglingMap b(1)] calm_send] b(2) by simp
        then show ?thesis
          using Some calm_moves by (simp add: Let_def)
      qed
    qed
    have "pushPath d (fst ?ms) (rev path) (snd ?ms) = Inr s'"
      using r False f by (auto simp: pushNodePathToFrontend_def Let_def split: sum.splits)
    then have "calm D {d} (snd ?ms) s'"
      using calm_pushPath[OF t] by blast
    then show ?thesis
      using calm_then_moves[OF i1 moves_calm[OF ims]] by blast
  qed
qed

lemma moves_collectNodeIds:
  "treeOk D d \<Longrightarrow> collectNodeIds d ns ids s = Inr (ids', s') \<Longrightarrow> moves D {d} s s'"
proof (induction ns arbitrary: ids s)
  case Nil
  then show ?case by simp
next
  case (Cons n rest)
  show ?case
  proof (cases "n \<in> set (searchResults s)")
    case True
    then show ?thesis using Cons by simp
  next
    case False
    let ?s0 = "s\<lparr>searchResults := searchResults s @ [n]\<rparr>"
    obtain nid s1 where p: "pushNodePathToFrontend d n ?s0 = Inr (nid, s1)"
      and q: "collectNodeIds d rest (ids @ [nid]) s1 = Inr (ids', s')"
      using Cons.prems(2) False by (auto split: sum.splits)
    have a: "calm D {d} s ?s0" by (rule calm_same) simp_all
    show ?thesis
      using calm_then_moves[OF a moves_trans[OF moves_pushNodePathToFrontend[OF Cons.prems(1) p]
            Cons.IH[OF Cons.prems(1) q]]] .
  qed
qed

lemma moves_reportNodesAsSearchResults:
  assumes t: "treeOk D d" and r: "reportNodesAsSearchResults d ns s = Inr s'"
  shows "moves D {d} s s'"
proof -
  obtain ids s1 where c: "collectNodeIds d ns [] s = Inr (ids, s1)"
    and e: "s' = send (AddNodesToSearchResult ids) s1"
    using r by (auto simp: reportNodesAsSearchResults_def split: sum.splits)
  show ?thesis
    unfolding e using moves_calm[OF moves_collectNodeIds[OF t c] calm_send] by simp
qed

lemma moves_onMatchJobsTimer:
  assumes t: "treeOk D d" and r: "onMatchJobsTimer d s = Inr s'"
  shows "moves D {d} s s'"
proof (cases "pendingMatchJobs s")
  case Nil
  then have "s' = searchCanceled s" using r by (simp add: onMatchJobsTimer_def)
  then show ?thesis using calm_moves[OF calm_searchCanceled] by simp
next
  case (Cons job rest)
  let ?s0 = "s\<lparr>pendingMatchJobs := rest\<rparr>"
  obtain s1 where p: "reportNodesAsSearchResults d (matchJob d job []) ?s0 = Inr s1"
    and e: "s' = s1\<lparr>matchJobsTimer := Some 25\<rparr>"
    using r Cons by (auto simp: onMatchJobsTimer_def split: sum.splits)
  have a: "calm D {d} s ?s0" by (rule calm_same) simp_all
  have b: "calm D {d} s1 (s1\<lparr>matchJobsTimer := Some 25\<rparr>)" by (rule calm_same) simp_all
  show ?thesis
    unfolding e
    using moves_calm[OF calm_then_moves[OF a moves_reportNodesAsSearchResults[OF t p]] b] .
qed

lemma moves_performSearch:
  assumes t: "treeOk D d" and r: "performSearch d query sync s = Inr s'"
  shows "moves D {d} s s'"
proof -
  let ?s1 = "searchCanceled s"
  obtain jobs where
    c: "(if sync then
           (case reportNodesAsSearchResults d
                   (matchJobs d (pendingMatchJobs (?s1\<lparr>pendingMatchJobs := jobs\<rparr>)) [])
                   (?s1\<lparr>pendingMatchJobs := jobs\<rparr>) of
              Inl e \<Rightarrow> Inl e
            | Inr s3 \<Rightarrow> Inr (searchCanceled s3))
         else Inr (?s1\<lparr>pendingMatchJobs := jobs, matchJobsTimer := Some 0\<rparr>)) = Inr s'"
    using r by (auto simp: performSearch_def Let_def split: option.splits)
  let ?s2 = "?s1\<lparr>pendingMatchJobs := jobs\<rparr>"
  have a: "calm D {d} s ?s2"
    using calm_trans[OF calm_searchCanceled calm_same[of ?s2 ?s1]] by simp
  show ?thesis
  proof (cases sync)
    case False
    then have "s' = ?s2\<lparr>matchJobsTimer := Some 0\<rparr>" using c by simp
    moreover have "calm D {d} ?s2 (?s2\<lparr>matchJobsTimer := Some 0\<rparr>)"
      by (rule calm_same) simp_all
    ultimately show ?thesis using calm_moves[OF calm_trans[OF a]] by simp
  next
    case True
    then obtain s3 where
      p: "reportNodesAsSearchResults d (matchJobs d (pendingMatchJobs ?s2) []) ?s2 = Inr s3"
      and e: "s' = searchCanceled s3"
      using c by (auto split: sum.splits)
    show ?thesis
      unfolding e
      using moves_calm[OF calm_then_moves[OF a moves_reportNodesAsSearchResults[OF t p]]
          calm_searchCanceled] .
  qed
qed

lemma moves_pushed:
  assumes t: "treeOk D d" and d: "d \<in> T"
    and p: "pushNodePathToFrontend d n s = Inr (newId, s2)"
    and c: "(if requested then pushChildNodesToFrontend d newId s2 else Inr s2) = Inr s3"
    and m: "\<not> showsWhitespace m"
  shows "moves D T s (send m s3)"
proof -
  have a: "moves D T s s2"
    using moves_mono[OF moves_pushNodePathToFrontend[OF t p]] d by simp
  have "calm D {d} s2 s3"
    using c calm_pushChildNodesToFrontend[OF t] by (auto split: if_splits)
  then have "calm D T s2 (send m s3)"
    using calm_mono[OF calm_trans[OF _ calm_send[OF m]]] d by simp
  then show ?thesis using moves_calm[OF a] by blast
qed

lemma moves_setOuterHTML:
  assumes n: "\<forall>d \<in> noteTree ` set notifications. treeOk D d" and t: "treeOk D d1"
    and r: "setOuterHTML (\<lambda>d n h t. (ec, d1, notify notifications t)) d callId i html s
              = Inr (d', s')"
  shows "moves D (noteTree ` set notifications \<union> {d1}) s s'"
proof (cases "\<exists>node. nodeForId s i = Some node \<and> isHTMLElement d node")
  case False
  then have "s' = send (DidSetOuterHTML callId 0) s"
    using r by (auto simp: setOuterHTML_def split: option.splits if_splits)
  then show ?thesis using calm_moves[OF calm_send] by simp
next
  case True
  then obtain node where h: "nodeForId s i = Some node" "isHTMLElement d node" by blast
  let ?T = "noteTree ` set notifications \<union> {d1}"
  let ?s0 = "notify notifications s"
  let ?s1 = "if ec \<noteq> 0 then send (DidSetOuterHTML callId 0) ?s0 else ?s0"
  have a0: "calm D ?T s ?s0"
    by (rule calm_mono[OF calm_notify[OF n]]) auto
  have a1: "calm D ?T s ?s1"
    using calm_trans[OF a0 calm_send] a0 by simp
  let ?nn = "case previousSibling d node of
               Some p \<Rightarrow> Inr (nextSibling d1 p)
             | None \<Rightarrow>
                 (case parentNode d node of
                    None \<Rightarrow> Inl NullPointer
                  | Some pn \<Rightarrow> Inr (firstChild d1 pn))"
  obtain newNode where nn: "?nn = Inr newNode"
    using r h by (cases ?nn) (simp_all add: setOuterHTML_def Let_def cong: option.case_cong sum.case_cong if_cong)
  let ?p = "case newNode of
              None \<Rightarrow> (let pd = pushDocumentToFrontend d1 ?s1
                        in if \<not> fst pd then Inr (0, snd pd) else Inl NullPointer)
            | Some n \<Rightarrow> pushNodePathToFrontend d1 n ?s1"
  obtain pushed where p0: "?p = Inr pushed"
    using r h nn
    by (cases ?p) (simp_all add: setOuterHTML_def Let_def cong: option.case_cong sum.case_cong if_cong)
  obtain newId s2 where p1: "pushed = (newId, s2)"
    by (cases pushed)
  have p: "?p = Inr (newId, s2)"
    using p0 p1 by simp
  let ?c = "if i \<in> childrenRequested s then pushChildNodesToFrontend d1 newId s2 else Inr s2"
  obtain s3 where c: "?c = Inr s3" and e: "s' = send (DidSetOuterHTML callId newId) s3"
    using r h nn p by (cases ?c) (simp_all add: setOuterHTML_def Let_def cong: option.case_cong sum.case_cong if_cong)
  have c3: "calm D ?T s2 (send (DidSetOuterHTML callId newId) s3)"
  proof -
    have "calm D {d1} s2 s3"
      using c calm_pushChildNodesToFrontend[OF t] by (auto split: if_splits)
    then show ?thesis
      using calm_mono[OF calm_trans[OF _ calm_send], of D "{d1}" s2 s3 _ ?T] by simp
  qed
  have "moves D ?T ?s1 s2"
  proof (cases newNode)
    case None
    then have "s2 = snd (pushDocumentToFrontend d1 ?s1)"
      using p by (auto simp: Let_def split: if_splits)
    then show ?thesis
      using calm_moves[OF calm_mono[OF calm_pushDocumentToFrontend[OF t]], of ?T ?s1] by simp
  next
    case (Some n)
    then show ?thesis
      using moves_mono[OF moves_pushNodePathToFrontend[OF t], of n ?s1 newId s2 ?T] p by simp
  qed
  then show ?thesis
    unfolding e using moves_calm[OF calm_then_moves[OF a1] c3] by blast
qed

lemma moves_changeTagName:
  assumes n: "\<forall>d \<in> noteTree ` set notifications. treeOk D d" and t: "treeOk D d1"
    and r: "changeTagName (\<lambda>d n tg. (ec0, newElem)) (\<lambda>d n e t. (ec, d1, notify notifications t))
              d callId i tagName s = Inr (d', s')"
  shows "moves D (noteTree ` set notifications \<union> {d1}) s s'"
proof -
  let ?T = "noteTree ` set notifications \<union> {d1}"
  let ?s0 = "notify notifications s"
  have a0: "calm D ?T s ?s0"
    by (rule calm_mono[OF calm_notify[OF n]]) auto
  consider
    (early) "s' = send (DidChangeTagName callId 0) s"
  | (refused) "s' = send (DidChangeTagName callId 0) ?s0"
  | (pushed) newId s2 s3 where "pushNodePathToFrontend d1 newElem ?s0 = Inr (newId, s2)"
      "(if i \<in> childrenRequested s then pushChildNodesToFrontend d1 newId s2 else Inr s2) = Inr s3"
      "s' = send (DidChangeTagName callId newId) s3"
    using r
    by (auto simp: changeTagName_def Let_def split: sum.splits option.splits if_splits)
  then show ?thesis
  proof cases
    case early
    then show ?thesis using calm_moves[OF calm_send] by simp
  next
    case refused
    then show ?thesis using calm_moves[OF calm_trans[OF a0 calm_send]] by simp
  next
    case pushed
    have "moves D ?T ?s0 (send (DidChangeTagName callId newId) s3)"
      using moves_pushed[OF t _ pushed(1,2), of ?T "DidChangeTagName callId newId"] by simp
    then show ?thesis
      unfolding pushed(3) using calm_then_moves[OF a0] by blast
  qed
qed

lemma calm_walkPath:
  "treeOk D d \<Longrightarrow> calm D {d} s (snd (walkPath toUInt d tokens node s))"
proof (induction toUInt d tokens node s rule: walkPath.induct)
  case (1 toUInt d number childName rest node s)
  show ?case
  proof (cases "toUInt number")
    case None
    then show ?thesis by simp
  next
    case (Some childNumber)
    let ?c = "innerChildNodeCount d node s"
    let ?f = "innerFirstChild d node (snd ?c)"
    let ?child = "innerChildren d node ! childNumber"
    have c: "calm D {d} s (snd ?c)" using calm_innerChildNodeCount[OF "1.prems"] .
    have f: "calm D {d} s (snd ?f)"
      using calm_trans[OF c calm_innerFirstChild[OF "1.prems"]] .
    show ?thesis
    proof (cases "childNumber \<ge> fst ?c \<or> nodeName d ?child \<noteq> childName")
      case True
      then show ?thesis using Some c f by (auto simp: Let_def)
    next
      case False
      then have "calm D {d} (snd ?f) (snd (walkPath toUInt d rest ?child (snd ?f)))"
        using "1.IH"[OF Some refl _ refl refl _ "1.prems"] by simp
      then show ?thesis
        using False Some calm_trans[OF f] by (simp add: Let_def)
    qed
  qed
qed simp_all

lemma moves_pushNodeByPathToFrontend:
  assumes t: "treeOk D d"
    and r: "pushNodeByPathToFrontend splt toUInt d callId path s = Inr s'"
  shows "moves D {d} s s'"
proof -
  let ?r = "nodeForPath splt toUInt d path s"
  have a: "calm D {d} s (snd ?r)"
    using calm_walkPath[OF t]
    by (auto simp: nodeForPath_def Let_def split: option.splits)
  show ?thesis
  proof (cases "fst ?r")
    case None
    then have "s' = send (DidPushNodeByPathToFrontend callId 0) (snd ?r)"
      using r by (simp add: pushNodeByPathToFrontend_def Let_def)
    then show ?thesis
      using calm_moves[OF calm_trans[OF a calm_send]] by simp
  next
    case (Some node)
    then obtain nid s1 where p: "pushNodePathToFrontend d node (snd ?r) = Inr (nid, s1)"
      and e: "s' = send (DidPushNodeByPathToFrontend callId nid) s1"
      using r by (auto simp: pushNodeByPathToFrontend_def Let_def split: sum.splits)
    have "moves D {d} (snd ?r) (send (DidPushNodeByPathToFrontend callId nid) s1)"
      using moves_calm[OF moves_pushNodePathToFrontend[OF t p] calm_send] by simp
    then show ?thesis
      unfolding e using calm_then_moves[OF a] by blast
  qed
qed

lemma moves_buildObjectsForEventListeners:
  "treeOk D d \<Longrightarrow> buildObjectsForEventListeners d ls arr s = Inr (arr', s') \<Longrightarrow>
   moves D {d} s s'"
proof (induction d ls arr s rule: buildObjectsForEventListeners.induct)
  case (1 d listenersArray s)
  then show ?case by simp
next
  case (2 d n ty u rest listenersArray s)
  obtain nid s1 where p: "pushNodePathToFrontend d n s = Inr (nid, s1)"
    and q: "buildObjectsForEventListeners d rest (listenersArray @ [(ty, u, nid)]) s1
              = Inr (arr', s')"
    using "2.prems"(2) by (auto split: sum.splits)
  show ?case
    using moves_trans[OF moves_pushNodePathToFrontend[OF "2.prems"(1) p]
        "2.IH"[OF p refl "2.prems"(1) q]] .
qed

lemma moves_getEventListenersForNode:
  assumes t: "treeOk D d" and r: "getEventListenersForNode l d callId i s = Inr s'"
  shows "moves D {d} s s'"
proof -
  consider
    (none) "s' = send (DidGetEventListenersForNode callId i []) s"
  | (some) ls arr s1 where "buildObjectsForEventListeners d ls [] s = Inr (arr, s1)"
      "s' = send (DidGetEventListenersForNode callId i arr) s1"
    using r
    by (auto simp: getEventListenersForNode_def Let_def
        split: sum.splits option.splits if_splits)
  then show ?thesis
  proof cases
    case none
    then show ?thesis using calm_moves[OF calm_send] by simp
  next
    case some
    show ?thesis
      unfolding some(2)
      using moves_calm[OF moves_buildObjectsForEventListeners[OF t some(1)] calm_send] by simp
  qed
qed

lemma moves_perform:
  assumes a: "admissible D op" and r: "perform op s = Inr s'"
  shows "moves D (set (trees op)) s s'"
proof (cases op)
  case Reset
  then show ?thesis using r calm_moves[OF calm_reset] by auto
next
  case (SetMainDocument d doc)
  then show ?thesis
    using a r calm_moves[OF calm_setDocument, of D d doc] by auto
next
  case (HandleEvent d ty node)
  then show ?thesis
    using a r calm_moves[OF calm_handleEvent, of D d ty node] by auto
next
  case DiscardAll
  then show ?thesis using r calm_moves[OF calm_discardBindings] by auto
next
  case (PushDocument d)
  then show ?thesis
    using a r calm_moves[OF calm_pushDocumentToFrontend, of D d] by auto
next
  case (PushChildNodes d i)
  then show ?thesis
    using a r calm_moves[OF calm_pushChildNodesToFrontend, of D d i s s'] by auto
next
  case (GetChildNodes d callId i)
  then show ?thesis
    using a r calm_moves[OF calm_getChildNodes, of D d callId i s s'] by auto
next
  case (PushNodePath d n)
  then obtain k where "pushNodePathToFrontend d n s = Inr (k, s')"
    using r by (cases "pushNodePathToFrontend d n s") auto
  then show ?thesis
    using a PushNodePath moves_pushNodePathToFrontend[of D d n s k s'] by simp
next
  case (SetOuterHTML notifications ec d1 d callId i html)
  then obtain d' where
    "setOuterHTML (\<lambda>d n h t. (ec, d1, notify notifications t)) d callId i html s = Inr (d', s')"
    using r
    by (cases "setOuterHTML (\<lambda>d n h t. (ec, d1, notify notifications t)) d callId i html s") auto
  then show ?thesis
    using a SetOuterHTML moves_setOuterHTML[of notifications D d1 ec d callId i html s d' s']
    by (simp add: list_all_iff Un_commute)
next
  case (ChangeTagName ec0 newElem notifications ec d1 d callId i tagName)
  then obtain d' where
    "changeTagName (\<lambda>d n tg. (ec0, newElem)) (\<lambda>d n e t. (ec, d1, notify notifications t))
       d callId i tagName s = Inr (d', s')"
    using r
    by (cases "changeTagName (\<lambda>d n tg. (ec0, newElem))
                 (\<lambda>d n e t. (ec, d1, notify notifications t)) d callId i tagName s") auto
  then show ?thesis
    using a ChangeTagName
      moves_changeTagName[of notifications D d1 ec0 newElem ec d callId i tagName s d' s']
    by (simp add: list_all_iff Un_commute)
next
  case (DidInsert d n)
  then show ?thesis
    using a r calm_moves[OF calm_didInsertDOMNode, of D d] by auto
next
  case (DidRemove d n)
  then show ?thesis
    using a r calm_moves[OF calm_didRemoveDOMNode, of D d] by auto
next
  case (PerformSearch d query sync)
  then show ?thesis
    using a r moves_performSearch[of D d query sync s s'] by simp
next
  case (OnMatchJobsTimer d)
  then show ?thesis
    using a r moves_onMatchJobsTimer[of D d s s'] by simp
next
  case SearchCanceled
  then show ?thesis using r calm_moves[OF calm_searchCanceled] by auto
next
  case (PushNodeByPath splt toUInt d callId path)
  then show ?thesis
    using a r moves_pushNodeByPathToFrontend[of D d splt toUInt callId path s s'] by simp
next
  case (GetEventListeners l d callId i)
  then show ?thesis
    using a r moves_getEventListenersForNode[of D d l callId i s s'] by simp
qed

lemma moves_steps:
  "\<forall>op \<in> set ops. admissible D op \<Longrightarrow> set (documents s) \<subseteq> D \<Longrightarrow>
   (s1, op, s2) \<in> set (steps ops s) \<Longrightarrow> spares (set (trees op)) s1 s2"
proof (induction ops arbitrary: s)
  case Nil
  then show ?case by simp
next
  case (Cons o1 rest)
  show ?case
  proof (cases "perform o1 s")
    case (Inl e)
    then show ?thesis using Cons.prems(3) by simp
  next
    case (Inr s')
    have m: "moves D (set (trees o1)) s s'"
      using moves_perform[OF _ Inr] Cons.prems(1) by simp
    then have sp: "spares (set (trees o1)) s s'" and d: "set (documents s') \<subseteq> D"
      using Cons.prems(2) by (auto simp: moves_def)
    show ?thesis
    proof (cases "(s1, op, s2) = (s, o1, s')")
      case True
      then show ?thesis using sp by simp
    next
      case False
      then have "(s1, op, s2) \<in> set (steps rest s')"
        using Cons.prems(3) Inr by auto
      then show ?thesis
        using Cons.IH[OF _ d] Cons.prems(1) by simp
    qed
  qed
qed

lemma push_detached_whitespace:
  assumes w: "isWhitespace d (Some n)" and p: "innerParentNode d n = None"
    and m: "mainFrameDocument t \<noteq> None"
    and g: "get (nodeMaps (snd (pushDocumentToFrontend d t)) DocumentMap) n = 0"
  shows "pushNodePathToFrontend d n t =
     (let t1 = snd (pushDocumentToFrontend d t) in
      Inr (lastNodeId t1,
           t1\<lparr> lastNodeId := nextLong (lastNodeId t1),
               nodeMaps := (nodeMaps t1)(DanglingMap (mapsAllocated t1) := [(n, lastNodeId t1)]),
               danglingNodeToIdMaps := danglingNodeToIdMaps t1 @ [DanglingMap (mapsAllocated t1)],
               mapsAllocated := Suc (mapsAllocated t1),
               idToNode := (idToNode t1)(lastNodeId t1 := Some n),
               idToNodesMap :=
                 (idToNodesMap t1)(lastNodeId t1 := Some (DanglingMap (mapsAllocated t1))),
               frontend := frontend t1 @
                 [SetDetachedRoot
                    (NodeObject (lastNodeId t1) 3 [] [] (nodeValue d n)
                       None None None None None)] \<rparr>))"
proof -
  have ty: "nodeType d n = TEXT_NODE" using w by (simp add: isWhitespace_def)
  have f: "fst (pushDocumentToFrontend d t)"
    using m by (auto simp: pushDocumentToFrontend_def Let_def split: option.splits)
  show ?thesis
    unfolding pushNodePathToFrontend_def findPath_root[OF p]
    using f g
    by (simp add: Let_def build_text[OF ty] newDanglingMap_def bind_def get_def send_def)
qed

lemma spares_unbound:
  assumes "spares T s s'" and "\<forall>d \<in> T. isWhitespace d (Some w) \<and> innerParentNode d w \<noteq> None"
    and "get (nodeMaps s M) w = 0"
  shows "get (nodeMaps s' M) w = 0"
proof (rule ccontr)
  assume "get (nodeMaps s' M) w \<noteq> 0"
  then have "newlyBound s s' M w"
    using assms(3) by (simp add: newlyBound_def)
  then have "\<exists>d \<in> T. innerParentNode d w = None"
    using assms(1,2) unfolding spares_def by blast
  then show False using assms(2) by blast
qed

lemma spares_quiet:
  assumes "spares T s s'"
    and "\<forall>m \<in> set (frontend s). showsWhitespace m \<longrightarrow> (\<exists>i. detachedText m i)"
  shows "\<forall>m \<in> set (frontend s'). showsWhitespace m \<longrightarrow> (\<exists>i. detachedText m i)"
proof -
  have "frontend s' = frontend s @ sent s s'"
    and "\<forall>m \<in> set (sent s s'). showsWhitespace m \<longrightarrow> (\<exists>i. detachedText m i)"
    using assms(1) by (simp_all add: spares_def)
  then show ?thesis
    using assms(2) by (metis Un_iff set_append)
qed

lemma steps_invariant:
  assumes a: "\<forall>op \<in> set ops. admissible D op" and d: "set (documents s) \<subseteq> D"
    and i: "P s"
    and k: "\<And>op s1 s2. op \<in> set ops \<Longrightarrow> spares (set (trees op)) s1 s2 \<Longrightarrow> P s1 \<Longrightarrow> P s2"
    and m: "(s1, op, s2) \<in> set (steps ops s)"
  shows "P s2"
  using a d i k m
proof (induction ops arbitrary: s)
  case Nil
  then show ?case by simp
next
  case (Cons o1 rest)
  show ?case
  proof (cases "perform o1 s")
    case (Inl e)
    then show ?thesis using Cons.prems(5) by simp
  next
    case (Inr s')
    have mv: "moves D (set (trees o1)) s s'"
      using moves_perform[OF _ Inr] Cons.prems(1) by simp
    then have sp: "spares (set (trees o1)) s s'" and d': "set (documents s') \<subseteq> D"
      using Cons.prems(2) by (auto simp: moves_def)
    have p': "P s'"
      using Cons.prems(4)[OF _ sp Cons.prems(3)] by simp
    show ?thesis
    proof (cases "(s1, op, s2) = (s, o1, s')")
      case True
      then show ?thesis using p' by simp
    next
      case False
      then have mem: "(s1, op, s2) \<in> set (steps rest s')"
        using Cons.prems(5) Inr by auto
      show ?thesis
      proof (rule Cons.IH[OF _ d' p' _ mem])
        show "\<forall>op \<in> set rest. admissible D op" using Cons.prems(1) by simp
        show "P t2" if "op' \<in> set rest" "spares (set (trees op')) t1 t2" "P t1" for op' t1 t2
          using Cons.prems(4)[OF _ that(2,3)] that(1) by simp
      qed
    qed
  qed
qed

lemma spares_live:
  "spares T s s' \<Longrightarrow> \<forall>d \<in> T. isWhitespace d (Some w) \<Longrightarrow>
   get (nodeMaps s DocumentMap) w = 0 \<Longrightarrow> get (nodeMaps s' DocumentMap) w = 0"
  unfolding spares_def newlyBound_def by metis

lemma page_treeOk: "treeOk {0, 7} page"
  unfolding treeOk_def
  by (auto simp: page_def isWhitespace_def firstChild_def split: if_splits option.splits)

lemma visit_admissible: "\<forall>op \<in> set visit. admissible {0, 7} op"
  by (simp add: visit_def page_treeOk)

lemma page_9: "innerParentNode page 9 = None"
  by (simp add: innerParentNode_def page_def)

lemma page_whitespace: "isWhitespace page (Some 3)" "isWhitespace page (Some 9)"
  by (simp_all add: page_eval)

lemmas session_eval = visit_def setDocument_def reset_def searchCanceled_def discardBindings_def
  releaseDanglingNodes_def documentElement_def pushDocumentToFrontend_def mainFrameDocument_def
  contains_def didInsertDOMNode_def pushNodePathToFrontend_def findPath.simps innerParentNode_def
  pushChildNodesToFrontend_def nodeForId_def newDanglingMap_def InspectorDOMAgent_def
  listening_def

lemma visit_eval:
  "(length (steps visit InspectorDOMAgent),
    fst (snd (last (steps visit InspectorDOMAgent))),
    get (nodeMaps (fst (last (steps visit InspectorDOMAgent))) DocumentMap) 9,
    get (nodeMaps (snd (snd (last (steps visit InspectorDOMAgent)))) DocumentMap) 3,
    nodeMaps (snd (snd (last (steps visit InspectorDOMAgent)))) (DanglingMap 0),
    frontend (snd (snd (last (steps visit InspectorDOMAgent))))) =
   (4, PushNodePath page 9, 0, 0, [(9, 7)],
    [SetDocument
       (Some
         (NodeObject 1 9 ''#document'' [] [] (Some 1)
           (Some
             [NodeObject 2 1 ''DIV'' ''div'' [] (Some 3)
               (Some
                 [NodeObject 3 1 ''DIV'' ''div'' [] (Some 1)
                   (Some [NodeObject 4 3 [] [] ''x'' None None None None None])
                   (Some [(''id'', ''a'')]) None None,
                  NodeObject 5 1 ''DIV'' ''div'' [] (Some 0) None (Some []) None None,
                  NodeObject 6 1 ''IFRAME'' ''iframe'' [] (Some 1) None (Some [])
                   (Some []) None])
               (Some []) None None])
           None (Some ''http://page/'') None)),
     SetChildNodes 2
       [NodeObject 3 1 ''DIV'' ''div'' [] (Some 1)
         (Some [NodeObject 4 3 [] [] ''x'' None None None None None])
         (Some [(''id'', ''a'')]) None None,
        NodeObject 5 1 ''DIV'' ''div'' [] (Some 0) None (Some []) None None,
        NodeObject 6 1 ''IFRAME'' ''iframe'' [] (Some 1) None (Some []) (Some []) None],
     SetDetachedRoot (NodeObject 7 3 [] [] ''  '' None None None None None)])"
  by (simp cong: let_weak_cong add: session_eval build_eval page_eval Let_def)

lemma listening_eval:
  "mainFrameDocument listening \<noteq> None"
  "get (nodeMaps (snd (pushDocumentToFrontend page listening)) DocumentMap) 9 = 0"
  "lastNodeId (snd (pushDocumentToFrontend page listening)) = 7"
  by (simp_all cong: let_weak_cong add: session_eval build_eval page_eval Let_def)

text \<open>
  Claim C6 (whitespace invariance), as stated, fails. The node 9 of the example is a
  whitespace text without a parent. \<^verbatim>\<open>pushNodePathToFrontend\<close> finds no parent, makes
  a new map for the detached subtree and calls \<^verbatim>\<open>buildObjectForNode\<close> on the node itself:
  the node gets the identifier 7 and its record is sent as the detached root.
\<close>

theorem whitespace_invariance_counterexample:
  "isWhitespace page (Some 9) \<and>
   get (nodeMaps shown DocumentMap) 9 = 0 \<and> frontend shown = [] \<and>
   pushNodePathToFrontend page 9 shown =
     Inr (7, shown\<lparr> lastNodeId := 8,
                     nodeMaps := (nodeMaps shown)(DanglingMap 0 := [(9, 7)]),
                     danglingNodeToIdMaps := [DanglingMap 0],
                     mapsAllocated := 1,
                     idToNode := (idToNode shown)(7 := Some 9),
                     idToNodesMap := (idToNodesMap shown)(7 := Some (DanglingMap 0)),
                     frontend := [SetDetachedRoot
                        (NodeObject 7 3 [] [] ''  '' None None None None None)] \<rparr>) \<and>
   showsWhitespace (SetDetachedRoot (NodeObject 7 3 [] [] ''  '' None None None None None))"
  unfolding pushNodePathToFrontend_def findPath_root[OF page_9]
  by (simp cong: let_weak_cong
      add: pushDocumentToFrontend_def mainFrameDocument_def
        contains_def newDanglingMap_def build_eval agent_eval
        page_def isWhitespace_def stripWhiteSpace_def isSpaceOrNewline_def get_def Let_def fun_eq_iff)

text \<open>
  Claim C6 as amended. Take any sequence of operations of the agent: \<^verbatim>\<open>reset\<close>,
  \<^verbatim>\<open>setDocument\<close>, \<^verbatim>\<open>handleEvent\<close>, \<^verbatim>\<open>discardBindings\<close>, \<^verbatim>\<open>pushDocumentToFrontend\<close>,
  \<^verbatim>\<open>pushChildNodesToFrontend\<close>, \<^verbatim>\<open>getChildNodes\<close>, \<^verbatim>\<open>pushNodePathToFrontend\<close>,
  \<^verbatim>\<open>setOuterHTML\<close>, \<^verbatim>\<open>changeTagName\<close>, \<^verbatim>\<open>didInsertDOMNode\<close>, \<^verbatim>\<open>didRemoveDOMNode\<close>,
  \<^verbatim>\<open>performSearch\<close>, \<^verbatim>\<open>onMatchJobsTimer\<close>, \<^verbatim>\<open>searchCanceled\<close>,
  \<^verbatim>\<open>pushNodeByPathToFrontend\<close> and \<^verbatim>\<open>getEventListenersForNode\<close>, each on the tree as it
  is at the call, from any state, where the documents are documents, no document starts
  with a whitespace text and no load event has a whitespace text as its target. Then in
  every step, for every node that is a whitespace text in the trees of the step:

  \<^item> the node gets no identifier in the map of the document;
  \<^item> it gets an identifier in another map only when it has no inner parent (no parent, or
    a parent that is a document without an owner element), and then the step has sent a
    message that sets it, with this identifier, as a detached root;
  \<^item> every other message of the step shows no whitespace text, at any depth of its
    records: no whitespace text is in a record of children, and the special case of
    \<^verbatim>\<open>buildArrayForContainerChildren\<close> at depth 0 admits a sole text child only when it
    is not whitespace.

  So a node that has no identifier at the start, and is a whitespace text with an inner
  parent in every tree of the sequence, has no identifier in any map after any step; and
  when the messages sent before the sequence show a whitespace text only as a detached
  root, so do the messages sent up to any step.

  The exception is \<^verbatim>\<open>pushNodePathToFrontend\<close> on a whitespace text without an inner
  parent, in a state with a main document where the node has no identifier in the map of
  the document: the call allocates a map for the detached subtree, binds the node in it to
  the counter, sends its record as the detached root and returns the identifier.
\<close>

theorem whitespace_invariance:
  assumes "\<forall>op \<in> set ops. admissible D op" and "set (documents s) \<subseteq> D"
  shows "(\<forall>(s1, op, s2) \<in> set (steps ops s). spares (set (trees op)) s1 s2) \<and>
         (isWhitespace d (Some n) \<and> innerParentNode d n = None \<and>
          mainFrameDocument t \<noteq> None \<and>
          get (nodeMaps (snd (pushDocumentToFrontend d t)) DocumentMap) n = 0 \<longrightarrow>
            pushNodePathToFrontend d n t =
              (let t1 = snd (pushDocumentToFrontend d t) in
               Inr (lastNodeId t1,
                    t1\<lparr> lastNodeId := nextLong (lastNodeId t1),
                        nodeMaps := (nodeMaps t1)
                          (DanglingMap (mapsAllocated t1) := [(n, lastNodeId t1)]),
                        danglingNodeToIdMaps :=
                          danglingNodeToIdMaps t1 @ [DanglingMap (mapsAllocated t1)],
                        mapsAllocated := Suc (mapsAllocated t1),
                        idToNode := (idToNode t1)(lastNodeId t1 := Some n),
                        idToNodesMap :=
                          (idToNodesMap t1)
                            (lastNodeId t1 := Some (DanglingMap (mapsAllocated t1))),
                        frontend := frontend t1 @
                          [SetDetachedRoot
                             (NodeObject (lastNodeId t1) 3 [] [] (nodeValue d n)
                                None None None None None)] \<rparr>))) \<and>
         ((\<forall>M. get (nodeMaps s M) w = 0) \<and>
          (\<forall>op \<in> set ops. \<forall>d' \<in> set (trees op).
              isWhitespace d' (Some w) \<and> innerParentNode d' w \<noteq> None) \<longrightarrow>
            (\<forall>(s1, op, s2) \<in> set (steps ops s). \<forall>M. get (nodeMaps s2 M) w = 0)) \<and>
         ((\<forall>m \<in> set (frontend s). showsWhitespace m \<longrightarrow> (\<exists>i. detachedText m i)) \<longrightarrow>
            (\<forall>(s1, op, s2) \<in> set (steps ops s).
               \<forall>m \<in> set (frontend s2). showsWhitespace m \<longrightarrow> (\<exists>i. detachedText m i)))"
proof -
  have a: "spares (set (trees op)) s1 s2" if "(s1, op, s2) \<in> set (steps ops s)" for s1 op s2
    using moves_steps[OF assms that] .
  have b: "\<forall>M. get (nodeMaps s2 M) w = 0"
    if h: "\<forall>M. get (nodeMaps s M) w = 0"
      "\<forall>op \<in> set ops. \<forall>d' \<in> set (trees op).
          isWhitespace d' (Some w) \<and> innerParentNode d' w \<noteq> None"
    and m: "(s1, op, s2) \<in> set (steps ops s)" for s1 op s2
  proof -
    have k: "\<forall>M. get (nodeMaps t2 M) w = 0"
      if "op' \<in> set ops" "spares (set (trees op')) t1 t2" "\<forall>M. get (nodeMaps t1 M) w = 0"
      for op' t1 t2
      using spares_unbound[OF that(2)] h(2) that(1,3) by blast
    show ?thesis
      using steps_invariant[where P = "\<lambda>s. \<forall>M. get (nodeMaps s M) w = 0", OF assms h(1) k m]
      by simp
  qed
  have c: "\<forall>m \<in> set (frontend s2). showsWhitespace m \<longrightarrow> (\<exists>i. detachedText m i)"
    if h: "\<forall>m \<in> set (frontend s). showsWhitespace m \<longrightarrow> (\<exists>i. detachedText m i)"
    and m: "(s1, op, s2) \<in> set (steps ops s)" for s1 op s2
  proof -
    have k: "\<forall>m \<in> set (frontend t2). showsWhitespace m \<longrightarrow> (\<exists>i. detachedText m i)"
      if "op' \<in> set ops" "spares (set (trees op')) t1 t2"
        "\<forall>m \<in> set (frontend t1). showsWhitespace m \<longrightarrow> (\<exists>i. detachedText m i)"
      for op' t1 t2
      using spares_quiet[OF that(2,3)] .
    show ?thesis
      using steps_invariant[where P = "\<lambda>s. \<forall>m \<in> set (frontend s). showsWhitespace m \<longrightarrow> (\<exists>i. detachedText m i)",
          OF assms h k m]
      by simp
  qed
  have p1: "\<forall>(s1, op, s2) \<in> set (steps ops s). spares (set (trees op)) s1 s2"
    using a by auto
  have p3: "(\<forall>M. get (nodeMaps s M) w = 0) \<and>
          (\<forall>op \<in> set ops. \<forall>d' \<in> set (trees op).
              isWhitespace d' (Some w) \<and> innerParentNode d' w \<noteq> None) \<longrightarrow>
            (\<forall>(s1, op, s2) \<in> set (steps ops s). \<forall>M. get (nodeMaps s2 M) w = 0)"
    using b by auto
  have p4: "(\<forall>m \<in> set (frontend s). showsWhitespace m \<longrightarrow> (\<exists>i. detachedText m i)) \<longrightarrow>
            (\<forall>(s1, op, s2) \<in> set (steps ops s).
               \<forall>m \<in> set (frontend s2). showsWhitespace m \<longrightarrow> (\<exists>i. detachedText m i))"
    using c by auto
  show ?thesis
    using p1 push_detached_whitespace[of d n t] p3 p4 by blast
qed

text \<open>
  The same at a concrete input. The document 0 of the example page is set; the whitespace
  text 3, which has a parent, is reported as inserted and then pushed; the whitespace text
  9, which has none, is pushed. All four operations return. Node 3 has no identifier and
  no record; node 9 has none in the map of the document and gets 7 in a new map, with the
  third message.
\<close>

theorem whitespace_invariance_witness:
  "isWhitespace page (Some 3) \<and> isWhitespace page (Some 9) \<and>
   length (steps visit InspectorDOMAgent) = 4 \<and>
   get (nodeMaps (snd (snd (last (steps visit InspectorDOMAgent)))) DocumentMap) 3 = 0 \<and>
   get (nodeMaps (snd (snd (last (steps visit InspectorDOMAgent)))) DocumentMap) 9 = 0 \<and>
   nodeMaps (snd (snd (last (steps visit InspectorDOMAgent)))) (DanglingMap 0) = [(9, 7)] \<and>
   frontend (snd (snd (last (steps visit InspectorDOMAgent)))) =
     [SetDocument
       (Some
         (NodeObject 1 9 ''#document'' [] [] (Some 1)
           (Some
             [NodeObject 2 1 ''DIV'' ''div'' [] (Some 3)
               (Some
                 [NodeObject 3 1 ''DIV'' ''div'' [] (Some 1)
                   (Some [NodeObject 4 3 [] [] ''x'' None None None None None])
                   (Some [(''id'', ''a'')]) None None,
                  NodeObject 5 1 ''DIV'' ''div'' [] (Some 0) None (Some []) None None,
                  NodeObject 6 1 ''IFRAME'' ''iframe'' [] (Some 1) None (Some [])
                   (Some []) None])
               (Some []) None None])
           None (Some ''http://page/'') None)),
      SetChildNodes 2
       [NodeObject 3 1 ''DIV'' ''div'' [] (Some 1)
         (Some [NodeObject 4 3 [] [] ''x'' None None None None None])
         (Some [(''id'', ''a'')]) None None,
        NodeObject 5 1 ''DIV'' ''div'' [] (Some 0) None (Some []) None None,
        NodeObject 6 1 ''IFRAME'' ''iframe'' [] (Some 1) None (Some []) (Some []) None],
      SetDetachedRoot (NodeObject 7 3 [] [] ''  '' None None None None None)] \<and>
   map_sum id fst (pushNodePathToFrontend page 9 listening) = Inr 7"
proof -
  let ?l = "last (steps visit InspectorDOMAgent)"
  have d0: "set (documents InspectorDOMAgent) \<subseteq> {0, 7}"
    by (simp add: InspectorDOMAgent_def)
  note t = whitespace_invariance[OF visit_admissible d0, of page 9 listening 3]
  have len: "length (steps visit InspectorDOMAgent) = 4"
    and op: "fst (snd ?l) = PushNodePath page 9"
    and g9: "get (nodeMaps (fst ?l) DocumentMap) 9 = 0"
    and g3: "get (nodeMaps (snd (snd ?l)) DocumentMap) 3 = 0"
    and dm: "nodeMaps (snd (snd ?l)) (DanglingMap 0) = [(9, 7)]"
    and fr: "frontend (snd (snd ?l)) =
     [SetDocument
       (Some
         (NodeObject 1 9 ''#document'' [] [] (Some 1)
           (Some
             [NodeObject 2 1 ''DIV'' ''div'' [] (Some 3)
               (Some
                 [NodeObject 3 1 ''DIV'' ''div'' [] (Some 1)
                   (Some [NodeObject 4 3 [] [] ''x'' None None None None None])
                   (Some [(''id'', ''a'')]) None None,
                  NodeObject 5 1 ''DIV'' ''div'' [] (Some 0) None (Some []) None None,
                  NodeObject 6 1 ''IFRAME'' ''iframe'' [] (Some 1) None (Some [])
                   (Some []) None])
               (Some []) None None])
           None (Some ''http://page/'') None)),
      SetChildNodes 2
       [NodeObject 3 1 ''DIV'' ''div'' [] (Some 1)
         (Some [NodeObject 4 3 [] [] ''x'' None None None None None])
         (Some [(''id'', ''a'')]) None None,
        NodeObject 5 1 ''DIV'' ''div'' [] (Some 0) None (Some []) None None,
        NodeObject 6 1 ''IFRAME'' ''iframe'' [] (Some 1) None (Some []) (Some []) None],
      SetDetachedRoot (NodeObject 7 3 [] [] ''  '' None None None None None)]"
    using visit_eval by simp_all
  have "steps visit InspectorDOMAgent \<noteq> []" using len by auto
  then have mem: "?l \<in> set (steps visit InspectorDOMAgent)" by simp
  have h3: "(\<forall>M. get (nodeMaps InspectorDOMAgent M) 3 = 0) \<and>
            (\<forall>op \<in> set visit. \<forall>d' \<in> set (trees op).
                isWhitespace d' (Some 3) \<and> innerParentNode d' 3 \<noteq> None)"
    using page_whitespace(1)
    by (simp add: visit_def InspectorDOMAgent_def get_def) (simp add: innerParentNode_def page_def)
  have g3': "get (nodeMaps (snd (snd ?l)) DocumentMap) 3 = 0"
    using t[THEN conjunct2, THEN conjunct2, THEN conjunct1, THEN mp, OF h3, THEN bspec, OF mem]
    by (simp add: case_prod_beta)
  have "spares (set (trees (fst (snd ?l)))) (fst ?l) (snd (snd ?l))"
    using mem t[THEN conjunct1] by (auto simp: case_prod_beta)
  then have a: "get (nodeMaps (snd (snd ?l)) DocumentMap) 9 = 0"
    using spares_live[of "set (trees (fst (snd ?l)))" "fst ?l" "snd (snd ?l)" 9] g9 page_whitespace(2)
    unfolding op by simp
  have "pushNodePathToFrontend page 9 listening =
          (let t1 = snd (pushDocumentToFrontend page listening) in
           Inr (lastNodeId t1,
                t1\<lparr> lastNodeId := nextLong (lastNodeId t1),
                    nodeMaps := (nodeMaps t1)
                      (DanglingMap (mapsAllocated t1) := [(9, lastNodeId t1)]),
                    danglingNodeToIdMaps :=
                      danglingNodeToIdMaps t1 @ [DanglingMap (mapsAllocated t1)],
                    mapsAllocated := Suc (mapsAllocated t1),
                    idToNode := (idToNode t1)(lastNodeId t1 := Some 9),
                    idToNodesMap :=
                      (idToNodesMap t1)
                        (lastNodeId t1 := Some (DanglingMap (mapsAllocated t1))),
                    frontend := frontend t1 @
                      [SetDetachedRoot
                         (NodeObject (lastNodeId t1) 3 [] [] (nodeValue page 9)
                            None None None None None)] \<rparr>))"
    using t[THEN conjunct2] page_whitespace(2) page_9 listening_eval(1,2) by blast
  then have b: "map_sum id fst (pushNodePathToFrontend page 9 listening) = Inr 7"
    using listening_eval(3) by (simp add: Let_def)
  show ?thesis
    using page_whitespace len g3' a dm fr b by blast
qed

end
